theory Spec2Isabelle
  imports Complex_Main
begin

section \<open>Python values the reporting code works on\<close>

text \<open>
  The reporting views of the application (\<^verbatim>\<open>reports_sla.py\<close>,
  \<^verbatim>\<open>reports_sla_overdue.py\<close>, \<^verbatim>\<open>reports_ticket.py\<close>) are embedded as HOL
  functions. A Python exception is a value of \<open>py_error\<close>; a function that can raise
  returns \<open>py_error + 'a\<close> with \<open>Inl\<close> for the exception.

  A Python \<open>str\<close> is an Isabelle \<open>string\<close> holding its UTF-8 bytes. Substring
  containment on UTF-8 bytes coincides with containment on code points.

  \<open>str_lower\<close> is \<^verbatim>\<open>str.lower()\<close> on the ASCII letters and leaves every other byte as
  it is. Python also maps cased letters outside ASCII; it maps them to text outside
  ASCII again, with one exception, the Kelvin sign U+212A, which becomes \<^verbatim>\<open>k\<close>. The
  priority keys and completion keywords of the code are ASCII without \<^verbatim>\<open>k\<close>, or
  uncased CJK text, so every lookup and containment test made on a lowered string has
  the outcome it has in Python.
\<close>

datatype py_error =
  KeyError | IndexError | ValueError | OverflowError | TypeError | AttributeError

definition char_lower :: "char \<Rightarrow> char" where
  "char_lower c = (let n = (of_char c :: nat) in if 65 \<le> n \<and> n \<le> 90 then char_of (n + 32) else c)"

definition str_lower :: "string \<Rightarrow> string" where
  "str_lower s = map char_lower s"

fun starts_with :: "string \<Rightarrow> string \<Rightarrow> bool" where
  "starts_with s [] = True"
| "starts_with [] (k # ks) = False"
| "starts_with (c # cs) (k # ks) = (c = k \<and> starts_with cs ks)"

text \<open>\<open>str_contains s k\<close> is Python's \<^verbatim>\<open>k in s\<close> on strings.\<close>

fun str_contains :: "string \<Rightarrow> string \<Rightarrow> bool" where
  "str_contains [] k = (k = [])"
| "str_contains (c # cs) k = (starts_with (c # cs) k \<or> str_contains cs k)"

text \<open>
  \<open>WHITESPACE\<close> lists the UTF-8 encodings of the characters that \<^verbatim>\<open>str.isspace()\<close>
  accepts and \<^verbatim>\<open>str.strip()\<close> removes: U+0009 to U+000D, U+001C to U+0020, U+0085,
  U+00A0, U+1680, U+2000 to U+200A, U+2028, U+2029, U+202F, U+205F and U+3000.
  \<open>lstrip_with ws s\<close> removes from the front of \<open>s\<close> every leading character whose
  encoding is in \<open>ws\<close>; \<open>str_strip\<close> does so at both ends. An encoding of the list that
  ends a well-formed UTF-8 text is a whole character of it, as each starts with an ASCII
  or a lead byte.
\<close>

definition WHITESPACE :: "string list" where
  "WHITESPACE =
     [[CHR 0x09], [CHR 0x0A], [CHR 0x0B], [CHR 0x0C], [CHR 0x0D], [CHR 0x1C], [CHR 0x1D],
      [CHR 0x1E], [CHR 0x1F], [CHR 0x20], [CHR 0xC2, CHR 0x85], [CHR 0xC2, CHR 0xA0],
      [CHR 0xE1, CHR 0x9A, CHR 0x80], [CHR 0xE2, CHR 0x80, CHR 0x80],
      [CHR 0xE2, CHR 0x80, CHR 0x81], [CHR 0xE2, CHR 0x80, CHR 0x82],
      [CHR 0xE2, CHR 0x80, CHR 0x83], [CHR 0xE2, CHR 0x80, CHR 0x84],
      [CHR 0xE2, CHR 0x80, CHR 0x85], [CHR 0xE2, CHR 0x80, CHR 0x86],
      [CHR 0xE2, CHR 0x80, CHR 0x87], [CHR 0xE2, CHR 0x80, CHR 0x88],
      [CHR 0xE2, CHR 0x80, CHR 0x89], [CHR 0xE2, CHR 0x80, CHR 0x8A],
      [CHR 0xE2, CHR 0x80, CHR 0xA8], [CHR 0xE2, CHR 0x80, CHR 0xA9],
      [CHR 0xE2, CHR 0x80, CHR 0xAF], [CHR 0xE2, CHR 0x81, CHR 0x9F],
      [CHR 0xE3, CHR 0x80, CHR 0x80]]"

fun lstrip_with :: "string list \<Rightarrow> string \<Rightarrow> string" where
  "lstrip_with ws [] = []"
| "lstrip_with ws (c # cs) =
     (case find (starts_with (c # cs)) ws of
        None \<Rightarrow> c # cs
      | Some w \<Rightarrow> lstrip_with ws (drop (length w - 1) cs))"

definition strip_with :: "string list \<Rightarrow> string \<Rightarrow> string" where
  "strip_with ws s = rev (lstrip_with (map rev ws) (rev (lstrip_with ws s)))"

definition str_strip :: "string \<Rightarrow> string" where
  "str_strip s = strip_with WHITESPACE s"

text \<open>
  The values a request parameter of type \<^verbatim>\<open>Any\<close> takes here: an integer (what the
  routes pass, after \<^verbatim>\<open>request.args.get(key, type=int)\<close>) or a string. \<open>py_int\<close> is
  Python's \<^verbatim>\<open>int(v)\<close>: on a string it accepts optional surrounding whitespace, an
  optional sign and decimal digits, where single underscores may separate digits, and
  raises \<^verbatim>\<open>ValueError\<close> on anything else. The whitespace of \<^verbatim>\<open>int\<close> is that of
  \<^verbatim>\<open>strip\<close> without U+001C to U+001F (\<open>INT_WHITESPACE\<close>). Decimal digits outside
  ASCII, which \<^verbatim>\<open>int\<close> reads as well, are not modelled: the routes never pass a string.
\<close>

datatype pyval = PyInt int | PyStr string

definition digit_val :: "char \<Rightarrow> int option" where
  "digit_val c = (let n = (of_char c :: nat) in if 48 \<le> n \<and> n \<le> 57 then Some (int n - 48) else None)"

text \<open>
  \<open>parse_digits acc after_digit s\<close> reads the rest of a decimal literal;
  \<open>after_digit\<close> tells whether the character before was a digit, the only place
  where an underscore or the end of the literal may stand.
\<close>

fun parse_digits :: "int \<Rightarrow> bool \<Rightarrow> string \<Rightarrow> int option" where
  "parse_digits acc after_digit [] = (if after_digit then Some acc else None)"
| "parse_digits acc after_digit (c # cs) =
     (if c = CHR ''_'' then (if after_digit then parse_digits acc False cs else None)
      else (case digit_val c of
              None \<Rightarrow> None
            | Some d \<Rightarrow> parse_digits (acc * 10 + d) True cs))"

definition INT_WHITESPACE :: "string list" where
  "INT_WHITESPACE =
     [[CHR 0x09], [CHR 0x0A], [CHR 0x0B], [CHR 0x0C], [CHR 0x0D], [CHR 0x20],
      [CHR 0xC2, CHR 0x85], [CHR 0xC2, CHR 0xA0], [CHR 0xE1, CHR 0x9A, CHR 0x80],
      [CHR 0xE2, CHR 0x80, CHR 0x80], [CHR 0xE2, CHR 0x80, CHR 0x81],
      [CHR 0xE2, CHR 0x80, CHR 0x82], [CHR 0xE2, CHR 0x80, CHR 0x83],
      [CHR 0xE2, CHR 0x80, CHR 0x84], [CHR 0xE2, CHR 0x80, CHR 0x85],
      [CHR 0xE2, CHR 0x80, CHR 0x86], [CHR 0xE2, CHR 0x80, CHR 0x87],
      [CHR 0xE2, CHR 0x80, CHR 0x88], [CHR 0xE2, CHR 0x80, CHR 0x89],
      [CHR 0xE2, CHR 0x80, CHR 0x8A], [CHR 0xE2, CHR 0x80, CHR 0xA8],
      [CHR 0xE2, CHR 0x80, CHR 0xA9], [CHR 0xE2, CHR 0x80, CHR 0xAF],
      [CHR 0xE2, CHR 0x81, CHR 0x9F], [CHR 0xE3, CHR 0x80, CHR 0x80]]"

definition parse_int :: "string \<Rightarrow> int option" where
  "parse_int s =
     (case strip_with INT_WHITESPACE s of
        [] \<Rightarrow> None
      | c # cs \<Rightarrow>
          if c = CHR ''-'' then map_option uminus (parse_digits 0 False cs)
          else if c = CHR ''+'' then parse_digits 0 False cs
          else parse_digits 0 False (c # cs))"

fun py_int :: "pyval \<Rightarrow> py_error + int" where
  "py_int (PyInt n) = Inr n"
| "py_int (PyStr s) = (case parse_int s of None \<Rightarrow> Inl ValueError | Some n \<Rightarrow> Inr n)"

section \<open>SLA rules\<close>

text \<open>
  \<^verbatim>\<open>SLA_RULES_DEFAULT\<close>, \<^verbatim>\<open>_normalize_priority\<close> (\<^verbatim>\<open>_norm_pri\<close>),
  \<^verbatim>\<open>_compose_rules_from_params\<close> (\<^verbatim>\<open>_compose_rules\<close>) and \<^verbatim>\<open>_target_hours\<close> are the
  same code in \<^verbatim>\<open>reports_sla.py\<close> and \<^verbatim>\<open>reports_sla_overdue.py\<close>. A rule set is a
  dictionary from priority keys to hours.
\<close>

type_synonym rules = "string \<rightharpoonup> int"

definition SLA_RULES_DEFAULT :: rules where
  "SLA_RULES_DEFAULT =
     [''p1'' \<mapsto> 4, ''critical'' \<mapsto> 4, ''urgent'' \<mapsto> 4,
      ''p2'' \<mapsto> 8, ''high'' \<mapsto> 8,
      ''p3'' \<mapsto> 24, ''medium'' \<mapsto> 24,
      ''p4'' \<mapsto> 72, ''low'' \<mapsto> 72,
      ''__default__'' \<mapsto> 24]"

definition normalize_priority :: "string option \<Rightarrow> string" where
  "normalize_priority s = str_lower (str_strip (case s of None \<Rightarrow> [] | Some x \<Rightarrow> x))"

text \<open>
  The override parameters of a request; \<open>None\<close> is an absent key or a \<^verbatim>\<open>None\<close> value.
  The \<^verbatim>\<open>params\<close> dictionary of a report extends this record by its other keys.
\<close>

record overrides =
  p1h :: "pyval option"
  p2h :: "pyval option"
  p3h :: "pyval option"
  p4h :: "pyval option"
  defh :: "pyval option"

text \<open>
  One round of the loop of \<^verbatim>\<open>_compose_rules_from_params\<close>:
  \<^verbatim>\<open>if v is not None: try: rules[norm] = max(0, int(v)) except Exception: pass\<close>.
\<close>

definition apply_override :: "rules \<Rightarrow> string \<times> pyval option \<Rightarrow> rules" where
  "apply_override rs kv =
     (case snd kv of
        None \<Rightarrow> rs
      | Some v \<Rightarrow> (case py_int v of Inl e \<Rightarrow> rs | Inr n \<Rightarrow> rs(fst kv \<mapsto> max 0 n)))"

definition compose_rules_from_params :: "'a overrides_scheme \<Rightarrow> rules" where
  "compose_rules_from_params ps =
     foldl apply_override SLA_RULES_DEFAULT
       [(''p1'', p1h ps), (''p2'', p2h ps), (''p3'', p3h ps), (''p4'', p4h ps),
        (''__default__'', defh ps)]"

definition alias_table :: "string \<rightharpoonup> string" where
  "alias_table =
     [''critical'' \<mapsto> ''p1'', ''urgent'' \<mapsto> ''p1'', ''high'' \<mapsto> ''p2'', ''medium'' \<mapsto> ''p3'',
      ''normal'' \<mapsto> ''p3'', ''standard'' \<mapsto> ''p3'', ''low'' \<mapsto> ''p4'']"

text \<open>\<^verbatim>\<open>rules[k]\<close>: a missing key raises \<^verbatim>\<open>KeyError\<close>.\<close>

definition rules_get :: "rules \<Rightarrow> string \<Rightarrow> py_error + int" where
  "rules_get rs k = (case rs k of None \<Rightarrow> Inl KeyError | Some h \<Rightarrow> Inr h)"

definition target_hours :: "string option \<Rightarrow> rules \<Rightarrow> py_error + int" where
  "target_hours priority rs =
     (let p = normalize_priority priority in
      if rs p \<noteq> None then rules_get rs p
      else if alias_table p \<noteq> None \<and> rs (the (alias_table p)) \<noteq> None
        then rules_get rs (the (alias_table p))
      else rules_get rs ''__default__'')"

subsection \<open>Properties of rule composition and resolution\<close>

text \<open>
  The invariant of every composed rule set: the \<^verbatim>\<open>__default__\<close> entry is there and no
  entry is negative.
\<close>

definition rules_ok :: "rules \<Rightarrow> bool" where
  "rules_ok rs = (rs ''__default__'' \<noteq> None \<and> (\<forall>k h. rs k = Some h \<longrightarrow> 0 \<le> h))"

lemma rules_ok_default: "rules_ok SLA_RULES_DEFAULT"
  by (simp add: rules_ok_def SLA_RULES_DEFAULT_def)

lemma rules_ok_apply_override: "rules_ok rs \<Longrightarrow> rules_ok (apply_override rs kv)"
  by (auto simp: rules_ok_def apply_override_def split: option.splits sum.splits)

lemma rules_ok_foldl: "rules_ok rs \<Longrightarrow> rules_ok (foldl apply_override rs kvs)"
  by (induction kvs arbitrary: rs) (simp_all add: rules_ok_apply_override)

lemma rules_ok_compose: "rules_ok (compose_rules_from_params ps)"
  unfolding compose_rules_from_params_def by (rule rules_ok_foldl [OF rules_ok_default])

lemma rules_get_ok:
  "rules_ok rs \<Longrightarrow> rs k \<noteq> None \<Longrightarrow> \<exists>h. rules_get rs k = Inr h \<and> 0 \<le> h \<and> rs k = Some h"
  by (auto simp: rules_ok_def rules_get_def)

text \<open>
  Normalisation removes Unicode whitespace as well: \<^verbatim>\<open>"p1"\<close> followed by the
  ideographic space U+3000 resolves to the \<^verbatim>\<open>p1\<close> target, and a no-break space, a file
  separator and a next-line character around \<^verbatim>\<open>" Urgent"\<close> leave the alias \<^verbatim>\<open>urgent\<close>.
\<close>

lemma target_hours_unicode_space:
  "normalize_priority (Some (''p1'' @ [CHR 0xE3, CHR 0x80, CHR 0x80])) = ''p1''"
  "target_hours (Some (''p1'' @ [CHR 0xE3, CHR 0x80, CHR 0x80])) SLA_RULES_DEFAULT = Inr 4"
  "target_hours (Some ([CHR 0xC2, CHR 0xA0, CHR 0x1C] @ '' Urgent'' @ [CHR 0xC2, CHR 0x85, CHR 0x0A]))
     SLA_RULES_DEFAULT = Inr 4"
  by code_simp+

text \<open>
  Claim C1. For every priority (\<open>None\<close>, empty or any string) and every rule set composed
  from request parameters, \<open>target_hours\<close> raises nothing and returns a non-negative
  number of hours, which is the rule set's entry for the normalised priority, or its
  entry for the alias of the normalised priority, or its \<^verbatim>\<open>__default__\<close> entry.
\<close>

theorem target_hours_total:
  "\<exists>h. target_hours priority (compose_rules_from_params ps) = Inr h \<and> 0 \<le> h \<and>
     (compose_rules_from_params ps (normalize_priority priority) = Some h \<or>
      (\<exists>a. alias_table (normalize_priority priority) = Some a \<and>
           compose_rules_from_params ps a = Some h) \<or>
      compose_rules_from_params ps ''__default__'' = Some h)"
proof -
  let ?rs = "compose_rules_from_params ps"
  let ?p = "normalize_priority priority"
  have ok: "rules_ok ?rs" by (rule rules_ok_compose)
  show ?thesis
  proof (cases "?rs ?p \<noteq> None")
    case True
    from rules_get_ok [OF ok True] show ?thesis
      using True by (auto simp: target_hours_def Let_def)
  next
    case direct: False
    show ?thesis
    proof (cases "alias_table ?p \<noteq> None \<and> ?rs (the (alias_table ?p)) \<noteq> None")
      case True
      then have "?rs (the (alias_table ?p)) \<noteq> None" by simp
      from rules_get_ok [OF ok this] show ?thesis
        using True direct by (auto simp: target_hours_def Let_def)
    next
      case False
      have "?rs ''__default__'' \<noteq> None" using ok by (simp add: rules_ok_def)
      from rules_get_ok [OF ok this] show ?thesis
        using False direct by (auto simp: target_hours_def Let_def)
    qed
  qed
qed

text \<open>
  The override parameter that belongs to a rule key: \<^verbatim>\<open>p1h\<close> to \<^verbatim>\<open>p4h\<close> for the four
  tiers, \<^verbatim>\<open>defh\<close> for \<^verbatim>\<open>__default__\<close>, none for every other key.
\<close>

definition override_for :: "'a overrides_scheme \<Rightarrow> string \<Rightarrow> pyval option" where
  "override_for ps k =
     (if k = ''p1'' then p1h ps else if k = ''p2'' then p2h ps else if k = ''p3'' then p3h ps
      else if k = ''p4'' then p4h ps else if k = ''__default__'' then defh ps else None)"

lemma apply_override_apply:
  "apply_override rs (k', v) k =
     (if k = k' then (case v of None \<Rightarrow> rs k
                      | Some x \<Rightarrow> (case py_int x of Inl e \<Rightarrow> rs k | Inr n \<Rightarrow> Some (max 0 n)))
      else rs k)"
  by (simp add: apply_override_def split: option.splits sum.splits)

text \<open>
  Claim C6, as the code has it. An override that Python's \<^verbatim>\<open>int\<close> converts to \<open>n\<close>
  replaces the entry of its tier by \<open>max 0 n\<close>: a non-negative \<open>n\<close> is taken as it is
  and a negative \<open>n\<close> becomes \<open>0\<close>. An absent override, or a value that \<^verbatim>\<open>int\<close> rejects,
  leaves the base entry; keys without an override parameter keep their base entry.
\<close>

theorem compose_rules_override:
  "compose_rules_from_params ps k =
     (case override_for ps k of
        None \<Rightarrow> SLA_RULES_DEFAULT k
      | Some v \<Rightarrow> (case py_int v of Inl e \<Rightarrow> SLA_RULES_DEFAULT k | Inr n \<Rightarrow> Some (max 0 n)))"
proof -
  consider "k = ''p1''" | "k = ''p2''" | "k = ''p3''" | "k = ''p4''" | "k = ''__default__''"
    | "k \<noteq> ''p1'' \<and> k \<noteq> ''p2'' \<and> k \<noteq> ''p3'' \<and> k \<noteq> ''p4'' \<and> k \<noteq> ''__default__''"
    by blast
  then show ?thesis
    by cases (simp_all add: compose_rules_from_params_def apply_override_apply override_for_def
        split: option.split sum.split)
qed

text \<open>
  Claim C6 as stated fails: \<open>-5\<close> is not a non-negative integer, yet the override is
  not ignored; the \<^verbatim>\<open>p1\<close> entry becomes \<open>0\<close> where the base rule has \<open>4\<close>.
\<close>

theorem override_negative_counterexample:
  "py_int (PyInt (- 5)) = Inr (- 5) \<and>
   compose_rules_from_params \<lparr>p1h = Some (PyInt (- 5)), p2h = None, p3h = None, p4h = None, defh = None\<rparr> ''p1'' = Some 0 \<and>
   SLA_RULES_DEFAULT ''p1'' = Some 4"
  by (simp add: compose_rules_from_params_def apply_override_apply SLA_RULES_DEFAULT_def)

section \<open>Percentiles\<close>

text \<open>
  \<^verbatim>\<open>_percentile\<close> of \<^verbatim>\<open>reports_ticket.py\<close>; \<^verbatim>\<open>_pctile\<close> inside
  \<^verbatim>\<open>_query_projects_overview\<close> is the same code. Python floats are modelled as exact
  rationals, so rounding errors of the float arithmetic are not part of the model.
  \<open>py_index\<close> is list indexing (a negative index counts from the end, an index out of
  range raises \<^verbatim>\<open>IndexError\<close>) and \<open>py_trunc\<close> is \<^verbatim>\<open>int(k)\<close>, which truncates towards
  zero.
\<close>

definition py_index :: "'a list \<Rightarrow> int \<Rightarrow> py_error + 'a" where
  "py_index xs i =
     (if 0 \<le> i \<and> i < int (length xs) then Inr (xs ! nat i)
      else if i < 0 \<and> - int (length xs) \<le> i then Inr (xs ! nat (int (length xs) + i))
      else Inl IndexError)"

definition py_trunc :: "rat \<Rightarrow> int" where
  "py_trunc x = (if 0 \<le> x then \<lfloor>x\<rfloor> else \<lceil>x\<rceil>)"

definition percentile :: "rat list \<Rightarrow> rat \<Rightarrow> py_error + rat" where
  "percentile vals p =
     (if vals = [] then Inr 0
      else
        let s = sort vals;
            k = of_int (int (length s) - 1) * p;
            f = py_trunc k;
            c = min (f + 1) (int (length s) - 1)
        in if f = c then py_index s (py_trunc k)
           else (case py_index s f of
                   Inl e \<Rightarrow> Inl e
                 | Inr a \<Rightarrow>
                     (case py_index s c of
                        Inl e \<Rightarrow> Inl e
                      | Inr b \<Rightarrow> Inr (a + (b - a) * (k - of_int f)))))"

text \<open>
  The percentile as the specification words it: \<open>f\<close> is the floor of \<open>k\<close>, and the
  result is read from the sorted list without any range check.
\<close>

definition percentile_spec :: "rat list \<Rightarrow> rat \<Rightarrow> rat" where
  "percentile_spec vals p =
     (if vals = [] then 0
      else
        let s = sort vals;
            n = int (length s);
            k = of_int (n - 1) * p;
            f = \<lfloor>k\<rfloor>;
            c = min (f + 1) (n - 1)
        in if f = c then s ! nat f
           else s ! nat f + (s ! nat c - s ! nat f) * (k - of_int f))"


text \<open>The interpolation formula on a sorted list, for the proof of monotonicity.\<close>

definition interp :: "rat list \<Rightarrow> rat \<Rightarrow> rat" where
  "interp s k = (let f = \<lfloor>k\<rfloor>; c = min (f + 1) (int (length s) - 1)
                 in s ! nat f + (s ! nat c - s ! nat f) * (k - of_int f))"

lemma py_index_in_range:
  "0 \<le> i \<Longrightarrow> i < int (length xs) \<Longrightarrow> py_index xs i = Inr (xs ! nat i)"
  by (simp add: py_index_def)

lemma sorted_nth_int:
  assumes "sorted (s :: rat list)" "0 \<le> i" "i \<le> j" "j < int (length s)"
  shows "s ! nat i \<le> s ! nat j"
proof -
  have "nat i \<le> nat j" "nat j < length s" using assms(2-4) by linarith+
  with assms(1) show ?thesis by (simp add: sorted_nth_mono)
qed

lemma floor_in_range:
  assumes "0 \<le> (k :: rat)" "k \<le> of_int (n - 1)"
  shows "0 \<le> \<lfloor>k\<rfloor>" "\<lfloor>k\<rfloor> \<le> n - 1"
proof -
  show "0 \<le> \<lfloor>k\<rfloor>" using assms(1) by simp
  have "\<lfloor>k\<rfloor> \<le> \<lfloor>of_int (n - 1) :: rat\<rfloor>" using assms(2) by (rule floor_mono)
  then show "\<lfloor>k\<rfloor> \<le> n - 1" by (simp only: floor_of_int)
qed

lemma interp_bounds:
  assumes "sorted s" "0 \<le> k" "k \<le> of_int (int (length s) - 1)"
  shows "s ! nat \<lfloor>k\<rfloor> \<le> interp s k"
    and "interp s k \<le> s ! nat (min (\<lfloor>k\<rfloor> + 1) (int (length s) - 1))"
proof -
  define f where "f = \<lfloor>k\<rfloor>"
  define n where "n = int (length s)"
  define c where "c = min (f + 1) (n - 1)"
  have f0: "0 \<le> f" and fn: "f \<le> n - 1"
    using floor_in_range [OF assms(2), of n] assms(3) by (simp_all add: f_def n_def)
  have cn: "c < n" "f \<le> c" using fn by (auto simp: c_def)
  have le: "s ! nat f \<le> s ! nat c"
    using sorted_nth_int [OF assms(1) f0 cn(2)] cn(1) by (simp add: n_def)
  have t0: "0 \<le> k - of_int f" by (simp add: f_def)
  have t1: "k - of_int f \<le> 1" unfolding f_def by linarith
  have d0: "0 \<le> s ! nat c - s ! nat f" using le by simp
  have m0: "0 \<le> (s ! nat c - s ! nat f) * (k - of_int f)"
    using d0 t0 by (rule mult_nonneg_nonneg)
  have m1: "(s ! nat c - s ! nat f) * (k - of_int f) \<le> (s ! nat c - s ! nat f) * 1"
    using t1 d0 by (rule mult_left_mono)
  have eq: "interp s k = s ! nat f + (s ! nat c - s ! nat f) * (k - of_int f)"
    by (simp add: interp_def Let_def f_def c_def n_def)
  show "s ! nat \<lfloor>k\<rfloor> \<le> interp s k" using m0 eq by (simp add: f_def)
  show "interp s k \<le> s ! nat (min (\<lfloor>k\<rfloor> + 1) (int (length s) - 1))"
    using m1 eq by (simp add: f_def c_def n_def)
qed


lemma percentile_spec_interp:
  "vals \<noteq> [] \<Longrightarrow>
   percentile_spec vals p = interp (sort vals) (of_int (int (length vals) - 1) * p)"
  by (simp add: percentile_spec_def interp_def Let_def)

lemma percentile_refines:
  assumes "0 \<le> p" "p \<le> 1"
  shows "percentile vals p = Inr (percentile_spec vals p)"
proof (cases "vals = []")
  case True
  then show ?thesis by (simp add: percentile_def percentile_spec_def)
next
  case False
  define s where "s = sort vals"
  define n where "n = int (length s)"
  define k where "k = (of_int (n - 1) * p :: rat)"
  define f where "f = \<lfloor>k\<rfloor>"
  define c where "c = min (f + 1) (n - 1)"
  have n1: "1 \<le> n" using False by (cases vals) (auto simp: n_def s_def)
  have k0: "0 \<le> k" unfolding k_def using n1 assms(1) by (intro mult_nonneg_nonneg) auto
  have "k \<le> of_int (n - 1) * 1" unfolding k_def using n1 assms(2) by (intro mult_left_mono) auto
  then have kn: "k \<le> of_int (n - 1)" by simp
  have tr: "py_trunc k = f" using k0 by (simp add: py_trunc_def f_def)
  have f0: "0 \<le> f" and fn: "f \<le> n - 1"
    using floor_in_range [OF k0 kn] by (simp_all add: f_def)
  have c0: "0 \<le> c" "c < n" using f0 fn by (auto simp: c_def)
  have ixf: "py_index s f = Inr (s ! nat f)"
    using f0 fn by (intro py_index_in_range) (auto simp: n_def)
  have ixc: "py_index s c = Inr (s ! nat c)"
    using c0 by (intro py_index_in_range) (auto simp: n_def)
  have lhs: "percentile vals p =
      (if py_trunc k = min (py_trunc k + 1) (n - 1) then py_index s (py_trunc k)
       else (case py_index s (py_trunc k) of Inl e \<Rightarrow> Inl e
             | Inr a \<Rightarrow> (case py_index s (min (py_trunc k + 1) (n - 1)) of Inl e \<Rightarrow> Inl e
                          | Inr b \<Rightarrow> Inr (a + (b - a) * (k - of_int (py_trunc k))))))"
    unfolding percentile_def Let_def k_def n_def s_def using False by simp
  have rhs: "percentile_spec vals p =
      (if f = c then s ! nat f else s ! nat f + (s ! nat c - s ! nat f) * (k - of_int f))"
    using False by (simp add: percentile_spec_def Let_def s_def n_def k_def f_def c_def)
  show ?thesis unfolding lhs rhs tr using ixf ixc by (simp add: c_def)
qed




section \<open>Dates and time buckets\<close>

text \<open>
  Python's \<^verbatim>\<open>date\<close> and \<^verbatim>\<open>datetime\<close> (naive, as the application uses them) are
  records of their fields. \<open>valid_date\<close> is the invariant of every Python date: year 1
  to 9999, month 1 to 12, a day of that month. \<open>toordinal\<close> is the proleptic Gregorian
  day number as CPython computes it (\<^verbatim>\<open>_ymd2ord\<close>), \<open>weekday\<close> is
  \<^verbatim>\<open>(toordinal() + 6) % 7\<close> with Monday as \<open>0\<close>, and dates and datetimes compare
  field by field as CPython's tuples do (\<open>lex_le\<close>).
\<close>

record date =
  year :: int
  month :: int
  day :: int

record datetime =
  dt_date :: date
  hour :: int
  minute :: int
  second :: int
  microsecond :: int

definition is_leap :: "int \<Rightarrow> bool" where
  "is_leap y = (y mod 4 = 0 \<and> (y mod 100 \<noteq> 0 \<or> y mod 400 = 0))"

definition days_in_month :: "int \<Rightarrow> int \<Rightarrow> int" where
  "days_in_month y m =
     (if m = 2 then (if is_leap y then 29 else 28)
      else if m = 4 \<or> m = 6 \<or> m = 9 \<or> m = 11 then 30 else 31)"

definition days_before_year :: "int \<Rightarrow> int" where
  "days_before_year y = (let y1 = y - 1 in y1 * 365 + y1 div 4 - y1 div 100 + y1 div 400)"

definition DAYS_BEFORE_MONTH :: "int list" where
  "DAYS_BEFORE_MONTH = [0, 31, 59, 90, 120, 151, 181, 212, 243, 273, 304, 334]"

definition days_before_month :: "int \<Rightarrow> int \<Rightarrow> int" where
  "days_before_month y m =
     DAYS_BEFORE_MONTH ! nat (m - 1) + (if m > 2 \<and> is_leap y then 1 else 0)"

definition valid_date :: "date \<Rightarrow> bool" where
  "valid_date d =
     (1 \<le> year d \<and> year d \<le> 9999 \<and> 1 \<le> month d \<and> month d \<le> 12 \<and>
      1 \<le> day d \<and> day d \<le> days_in_month (year d) (month d))"

definition valid_datetime :: "datetime \<Rightarrow> bool" where
  "valid_datetime t =
     (valid_date (dt_date t) \<and> 0 \<le> hour t \<and> hour t < 24 \<and> 0 \<le> minute t \<and> minute t < 60 \<and>
      0 \<le> second t \<and> second t < 60 \<and> 0 \<le> microsecond t \<and> microsecond t < 1000000)"

definition mk_date :: "int \<Rightarrow> int \<Rightarrow> int \<Rightarrow> py_error + date" where
  "mk_date y m d =
     (let r = \<lparr>year = y, month = m, day = d\<rparr> in if valid_date r then Inr r else Inl ValueError)"

definition toordinal :: "date \<Rightarrow> int" where
  "toordinal d = days_before_year (year d) + days_before_month (year d) (month d) + day d"

definition weekday :: "date \<Rightarrow> int" where
  "weekday d = (toordinal d + 6) mod 7"

fun lex_le :: "int list \<Rightarrow> int list \<Rightarrow> bool" where
  "lex_le [] ys = True"
| "lex_le (x # xs) [] = False"
| "lex_le (x # xs) (y # ys) = (x < y \<or> (x = y \<and> lex_le xs ys))"

definition date_fields :: "date \<Rightarrow> int list" where
  "date_fields d = [year d, month d, day d]"

definition dt_fields :: "datetime \<Rightarrow> int list" where
  "dt_fields t = date_fields (dt_date t) @ [hour t, minute t, second t, microsecond t]"

definition date_le :: "date \<Rightarrow> date \<Rightarrow> bool" where
  "date_le a b = lex_le (date_fields a) (date_fields b)"

definition date_lt :: "date \<Rightarrow> date \<Rightarrow> bool" where
  "date_lt a b = (date_le a b \<and> a \<noteq> b)"

definition dt_le :: "datetime \<Rightarrow> datetime \<Rightarrow> bool" where
  "dt_le a b = lex_le (dt_fields a) (dt_fields b)"

definition dt_lt :: "datetime \<Rightarrow> datetime \<Rightarrow> bool" where
  "dt_lt a b = (dt_le a b \<and> a \<noteq> b)"

text \<open>
  \<^verbatim>\<open>d + timedelta(days=n)\<close> and \<^verbatim>\<open>d - timedelta(days=n)\<close> walk the calendar one day at
  a time; CPython computes the same date through the day number. Leaving the range
  0001-01-01 to 9999-12-31 raises \<^verbatim>\<open>OverflowError\<close>, and the constructor
  \<^verbatim>\<open>date(y, m, d)\<close> (\<open>mk_date\<close>) raises \<^verbatim>\<open>ValueError\<close> outside it.
\<close>

definition next_day :: "date \<Rightarrow> py_error + date" where
  "next_day d =
     (if day d < days_in_month (year d) (month d) then Inr (d\<lparr>day := day d + 1\<rparr>)
      else if month d < 12 then Inr \<lparr>year = year d, month = month d + 1, day = 1\<rparr>
      else if year d < 9999 then Inr \<lparr>year = year d + 1, month = 1, day = 1\<rparr>
      else Inl OverflowError)"

definition prev_day :: "date \<Rightarrow> py_error + date" where
  "prev_day d =
     (if 1 < day d then Inr (d\<lparr>day := day d - 1\<rparr>)
      else if 1 < month d
        then Inr \<lparr>year = year d, month = month d - 1, day = days_in_month (year d) (month d - 1)\<rparr>
      else if 1 < year d then Inr \<lparr>year = year d - 1, month = 12, day = 31\<rparr>
      else Inl OverflowError)"

fun add_days :: "date \<Rightarrow> nat \<Rightarrow> py_error + date" where
  "add_days d 0 = Inr d"
| "add_days d (Suc n) = (case next_day d of Inl e \<Rightarrow> Inl e | Inr d' \<Rightarrow> add_days d' n)"

fun sub_days :: "date \<Rightarrow> nat \<Rightarrow> py_error + date" where
  "sub_days d 0 = Inr d"
| "sub_days d (Suc n) = (case prev_day d of Inl e \<Rightarrow> Inl e | Inr d' \<Rightarrow> sub_days d' n)"

text \<open>
  \<^verbatim>\<open>_iter_buckets\<close> (the same code in \<^verbatim>\<open>reports_sla.py\<close>,
  \<^verbatim>\<open>reports_sla_overdue.py\<close> and \<^verbatim>\<open>reports_ticket.py\<close>) has one loop per interval,
  \<^verbatim>\<open>while cur <= end: buckets.append(cur); cur = step(cur)\<close>, and the three loops differ
  in the step only: the first of the next month for \<^verbatim>\<open>"month"\<close>, seven days later for
  \<^verbatim>\<open>"week"\<close>, the next day for everything else. \<open>bucket_step\<close> is that step and
  \<open>bucket_loop\<close> the loop, with the list built so far as an argument.
\<close>

definition bucket_step :: "string \<Rightarrow> date \<Rightarrow> py_error + date" where
  "bucket_step interval cur =
     (if interval = ''month''
        then mk_date (year cur + (if month cur = 12 then 1 else 0))
                     (if month cur = 12 then 1 else month cur + 1) 1
      else if interval = ''week'' then add_days cur 7
      else add_days cur 1)"

text \<open>A number that grows with every step, for the termination of the loop.\<close>

definition step_rank :: "date \<Rightarrow> int" where
  "step_rank d = 400 * (12 * year d + min (month d) 12) + min (day d) 31"

lemma days_in_month_le: "days_in_month y m \<le> 31"
  by (simp add: days_in_month_def)

lemma next_day_rank: "next_day d = Inr d' \<Longrightarrow> step_rank d < step_rank d'"
  using days_in_month_le [of "year d" "month d"]
  by (auto simp: next_day_def step_rank_def split: if_splits)

lemma add_days_rank: "add_days d n = Inr d' \<Longrightarrow> 0 < n \<Longrightarrow> step_rank d < step_rank d'"
proof (induction n arbitrary: d)
  case 0
  then show ?case by simp
next
  case (Suc n)
  then obtain d1 where d1: "next_day d = Inr d1" "add_days d1 n = Inr d'"
    by (auto split: sum.splits)
  show ?case
  proof (cases n)
    case 0
    then show ?thesis using d1 next_day_rank by auto
  next
    case (Suc m)
    then have "step_rank d1 < step_rank d'" using Suc.IH [OF d1(2)] by simp
    then show ?thesis using next_day_rank [OF d1(1)] by linarith
  qed
qed

lemma bucket_step_rank: "bucket_step interval d = Inr d' \<Longrightarrow> step_rank d < step_rank d'"
proof -
  assume h: "bucket_step interval d = Inr d'"
  show ?thesis
  proof (cases "interval = ''month''")
    case True
    then show ?thesis using h
      by (auto simp: bucket_step_def mk_date_def valid_date_def step_rank_def Let_def
          split: if_splits)
  next
    case False
    then have "add_days d 7 = Inr d' \<or> add_days d 1 = Inr d'"
      using h by (simp add: bucket_step_def split: if_splits)
    then show ?thesis using add_days_rank [of d 7 d'] add_days_rank [of d 1 d'] by auto
  qed
qed

lemma date_le_year: "date_le a b \<Longrightarrow> year a \<le> year b"
  by (auto simp: date_le_def date_fields_def)

function bucket_loop :: "string \<Rightarrow> date list \<Rightarrow> date \<Rightarrow> date \<Rightarrow> py_error + date list" where
  "bucket_loop interval buckets cur end' =
     (if date_le cur end'
        then (case bucket_step interval cur of
                Inl e \<Rightarrow> Inl e
              | Inr nxt \<Rightarrow> bucket_loop interval (buckets @ [cur]) nxt end')
      else Inr buckets)"
  by pat_completeness auto
termination
proof (relation "measure (\<lambda>(interval, buckets, cur, end'). nat (400 * (12 * year end' + 12) + 32 - step_rank cur))")
  show "wf (measure (\<lambda>(interval, buckets, cur, end'). nat (400 * (12 * year end' + 12) + 32 - step_rank cur)))"
    by simp
next
  fix interval :: string and buckets :: "date list" and cur end' x2
  assume le: "date_le cur end'" and st: "bucket_step interval cur = Inr x2"
  have "step_rank cur < step_rank x2" by (rule bucket_step_rank [OF st])
  moreover have "step_rank cur \<le> 400 * (12 * year end' + 12) + 31"
    using date_le_year [OF le] by (simp add: step_rank_def)
  ultimately show "((interval, buckets @ [cur], x2, end'), (interval, buckets, cur, end'))
       \<in> measure (\<lambda>(interval, buckets, cur, end'). nat (400 * (12 * year end' + 12) + 32 - step_rank cur))"
    by simp
qed

definition iter_buckets :: "datetime \<Rightarrow> datetime \<Rightarrow> string \<Rightarrow> py_error + date list" where
  "iter_buckets date_from date_to interval =
     (if interval = ''month'' then
        (case mk_date (year (dt_date date_from)) (month (dt_date date_from)) 1 of
           Inl e \<Rightarrow> Inl e
         | Inr cur \<Rightarrow>
             (case mk_date (year (dt_date date_to)) (month (dt_date date_to)) 1 of
                Inl e \<Rightarrow> Inl e
              | Inr end' \<Rightarrow> bucket_loop interval [] cur end'))
      else if interval = ''week'' then
        (case sub_days (dt_date date_from) (nat (weekday (dt_date date_from))) of
           Inl e \<Rightarrow> Inl e
         | Inr start \<Rightarrow>
             (case sub_days (dt_date date_to) (nat (weekday (dt_date date_to))) of
                Inl e \<Rightarrow> Inl e
              | Inr end' \<Rightarrow> bucket_loop interval [] start end'))
      else bucket_loop interval [] (dt_date date_from) (dt_date date_to))"

definition bucket_key :: "datetime \<Rightarrow> string \<Rightarrow> py_error + date" where
  "bucket_key t interval =
     (if interval = ''month'' then mk_date (year (dt_date t)) (month (dt_date t)) 1
      else if interval = ''week'' then sub_days (dt_date t) (nat (weekday (dt_date t)))
      else Inr (dt_date t))"

text \<open>\<open>dt y m d h mi s us\<close> writes a datetime down, for concrete inputs.\<close>

definition dt :: "int \<Rightarrow> int \<Rightarrow> int \<Rightarrow> int \<Rightarrow> int \<Rightarrow> int \<Rightarrow> int \<Rightarrow> datetime" where
  "dt y m d h mi s us =
     \<lparr>dt_date = \<lparr>year = y, month = m, day = d\<rparr>, hour = h, minute = mi, second = s,
      microsecond = us\<rparr>"

subsection \<open>The calendar: day numbers follow the order of dates\<close>

lemma div_pred:
  fixes y k :: int
  assumes "0 < k"
  shows "(y - 1) div k = (if y mod k = 0 then y div k - 1 else y div k)"
proof (cases "y mod k = 0")
  case True
  have "y = k * (y div k) + y mod k" by simp
  then have "y = k * (y div k)" using True by simp
  then have "y - 1 = k * (y div k - 1) + (k - 1)" by (simp add: algebra_simps)
  then have "(y - 1) div k = y div k - 1"
    using assms by (intro int_div_pos_eq [where r = "k - 1"]) auto
  then show ?thesis using True by simp
next
  case False
  have "0 \<le> y mod k" using assms by simp
  then have r: "0 < y mod k" using False by linarith
  have r2: "y mod k < k" using assms by simp
  have "y - 1 = k * (y div k) + (y mod k - 1)" by simp
  then have "(y - 1) div k = y div k"
    using r r2 by (intro int_div_pos_eq [where r = "y mod k - 1"]) auto
  then show ?thesis using False by simp
qed


lemma div_step:
  fixes y :: int
  shows "y div 4 - (y - 1) div 4 = (if y mod 4 = 0 then 1 else 0)"
    and "y div 100 - (y - 1) div 100 = (if y mod 100 = 0 then 1 else 0)"
    and "y div 400 - (y - 1) div 400 = (if y mod 400 = 0 then 1 else 0)"
  by (simp_all add: div_pred)

lemma mod_400_100: "(y :: int) mod 400 = 0 \<Longrightarrow> y mod 100 = 0"
  by auto

lemma mod_100_4: "(y :: int) mod 100 = 0 \<Longrightarrow> y mod 4 = 0"
  by auto

lemma days_before_year_step:
  "days_before_year (y + 1) = days_before_year y + 365 + (if is_leap y then 1 else 0)"
proof -
  define d4 where "d4 = y div 4 - (y - 1) div 4"
  define d100 where "d100 = y div 100 - (y - 1) div 100"
  define d400 where "d400 = y div 400 - (y - 1) div 400"
  define a4 where "a4 = (y mod 4 = 0)"
  define a100 where "a100 = (y mod 100 = 0)"
  define a400 where "a400 = (y mod 400 = 0)"
  have e: "days_before_year (y + 1) - days_before_year y = 365 + d4 - d100 + d400"
    by (simp add: days_before_year_def Let_def algebra_simps d4_def d100_def d400_def)
  have d: "d4 = (if a4 then 1 else 0)" "d100 = (if a100 then 1 else 0)"
    "d400 = (if a400 then 1 else 0)"
    unfolding d4_def d100_def d400_def a4_def a100_def a400_def by (rule div_step)+
  have imp: "a400 \<longrightarrow> a100" "a100 \<longrightarrow> a4"
    unfolding a4_def a100_def a400_def using mod_400_100 [of y] mod_100_4 [of y] by blast+
  have leap: "is_leap y = (a4 \<and> (\<not> a100 \<or> a400))"
    by (simp add: is_leap_def a4_def a100_def a400_def)
  have "d4 - d100 + d400 = (if is_leap y then 1 else 0)"
    unfolding d leap using imp by (cases a4; cases a100; cases a400; simp)
  with e show ?thesis by linarith
qed

lemma month_cases:
  assumes "1 \<le> (m :: int)" "m \<le> 12"
  obtains "m = 1" | "m = 2" | "m = 3" | "m = 4" | "m = 5" | "m = 6"
    | "m = 7" | "m = 8" | "m = 9" | "m = 10" | "m = 11" | "m = 12"
proof -
  have "m = 1 \<or> m = 2 \<or> m = 3 \<or> m = 4 \<or> m = 5 \<or> m = 6 \<or> m = 7 \<or> m = 8 \<or> m = 9
      \<or> m = 10 \<or> m = 11 \<or> m = 12"
    using assms by arith
  then show thesis using that by blast
qed

lemma days_before_month_step:
  assumes "1 \<le> m" "m < 12"
  shows "days_before_month y (m + 1) = days_before_month y m + days_in_month y m"
proof -
  have "m \<le> 12" using assms by simp
  from assms(1) this show ?thesis
    using assms(2)
    by (cases m rule: month_cases)
      (simp_all add: days_before_month_def days_in_month_def DAYS_BEFORE_MONTH_def)
qed

lemma days_before_month_12:
  "days_before_month y 12 + 31 = 365 + (if is_leap y then 1 else 0)"
  by (simp add: days_before_month_def DAYS_BEFORE_MONTH_def)

lemma days_before_month_1: "days_before_month y 1 = 0"
  by (simp add: days_before_month_def DAYS_BEFORE_MONTH_def)

lemma days_in_month_12: "days_in_month y 12 = 31"
  by (simp add: days_in_month_def)

lemma days_in_month_ge: "28 \<le> days_in_month y m"
  by (simp add: days_in_month_def)

lemma next_day_valid:
  assumes "valid_date d" "next_day d = Inr d'"
  shows "valid_date d' \<and> toordinal d' = toordinal d + 1"
proof -
  consider (a) "day d < days_in_month (year d) (month d)"
    | (b) "day d = days_in_month (year d) (month d)" "month d < 12"
    | (c) "day d = days_in_month (year d) (month d)" "month d = 12" "year d < 9999"
    | (e) "day d = days_in_month (year d) (month d)" "month d = 12" "year d = 9999"
    using assms(1) by (fastforce simp: valid_date_def)
  then show ?thesis
  proof cases
    case a
    then have "d' = d\<lparr>day := day d + 1\<rparr>" using assms(2) by (simp add: next_day_def)
    then show ?thesis using a assms(1) by (simp add: valid_date_def toordinal_def)
  next
    case b
    then have d': "d' = \<lparr>year = year d, month = month d + 1, day = 1\<rparr>"
      using assms(2) by (simp add: next_day_def)
    have m1: "1 \<le> month d" using assms(1) by (simp add: valid_date_def)
    show ?thesis
      using b assms(1) days_before_month_step [OF m1 b(2), of "year d"]
        days_in_month_ge [of "year d" "month d + 1"]
      by (simp add: d' valid_date_def toordinal_def)
  next
    case c
    then have d': "d' = \<lparr>year = year d + 1, month = 1, day = 1\<rparr>"
      using assms(2) by (simp add: next_day_def)
    show ?thesis
      using c assms(1) days_before_year_step [of "year d"] days_before_month_12 [of "year d"]
        days_in_month_ge [of "year d + 1" 1]
      by (simp add: d' valid_date_def toordinal_def days_before_month_1 days_in_month_12)
  next
    case e
    then show ?thesis using assms(2) by (simp add: next_day_def)
  qed
qed

definition max_date :: date where
  "max_date = \<lparr>year = 9999, month = 12, day = 31\<rparr>"

definition min_date :: date where
  "min_date = \<lparr>year = 1, month = 1, day = 1\<rparr>"

lemma toordinal_max: "toordinal max_date = 3652059"
  by (simp add: max_date_def toordinal_def days_before_year_def days_before_month_def
      DAYS_BEFORE_MONTH_def is_leap_def)

lemma toordinal_min: "toordinal min_date = 1"
  by (simp add: min_date_def toordinal_def days_before_year_def days_before_month_def
      DAYS_BEFORE_MONTH_def)

lemma next_day_error:
  assumes "valid_date d" "next_day d = Inl e"
  shows "d = max_date"
proof -
  have "day d = days_in_month (year d) (month d) \<and> month d = 12 \<and> year d = 9999"
    using assms by (auto simp: next_day_def valid_date_def split: if_splits)
  then have "year d = 9999 \<and> month d = 12 \<and> day d = 31" by (simp add: days_in_month_def)
  then show ?thesis by (simp add: max_date_def)
qed

lemma prev_day_valid:
  assumes "valid_date d" "prev_day d = Inr d'"
  shows "valid_date d' \<and> toordinal d' = toordinal d - 1"
proof -
  consider (a) "1 < day d"
    | (b) "day d = 1" "1 < month d"
    | (c) "day d = 1" "month d = 1" "1 < year d"
    | (e) "day d = 1" "month d = 1" "year d = 1"
    using assms(1) by (fastforce simp: valid_date_def)
  then show ?thesis
  proof cases
    case a
    then have "d' = d\<lparr>day := day d - 1\<rparr>" using assms(2) by (simp add: prev_day_def)
    then show ?thesis using a assms(1) by (simp add: valid_date_def toordinal_def)
  next
    case b
    then have d': "d' = \<lparr>year = year d, month = month d - 1, day = days_in_month (year d) (month d - 1)\<rparr>"
      using assms(2) by (simp add: prev_day_def)
    have m1: "1 \<le> month d - 1" "month d - 1 < 12" using assms(1) b by (simp_all add: valid_date_def)
    show ?thesis
      using b assms(1) days_before_month_step [OF m1, of "year d"]
        days_in_month_ge [of "year d" "month d - 1"]
      by (simp add: d' valid_date_def toordinal_def)
  next
    case c
    then have d': "d' = \<lparr>year = year d - 1, month = 12, day = 31\<rparr>"
      using assms(2) by (simp add: prev_day_def)
    show ?thesis
      using c assms(1) days_before_year_step [of "year d - 1"] days_before_month_12 [of "year d - 1"]
      by (simp add: d' valid_date_def toordinal_def days_before_month_1 days_in_month_12)
  next
    case e
    then show ?thesis using assms(2) by (simp add: prev_day_def)
  qed
qed

lemma prev_day_error:
  assumes "valid_date d" "prev_day d = Inl e"
  shows "d = min_date"
  using assms by (auto simp: prev_day_def valid_date_def min_date_def split: if_splits)

lemma days_before_year_mono: "a \<le> b \<Longrightarrow> days_before_year a \<le> days_before_year b"
proof (induction b rule: int_ge_induct)
  case base
  show ?case by simp
next
  case (step i)
  then show ?case using days_before_year_step [of i] by (simp split: if_splits)
qed

lemma days_before_year_1: "days_before_year 1 = 0"
  by (simp add: days_before_year_def)

lemma days_before_month_mono:
  assumes "1 \<le> m1" "m1 \<le> m2" "m2 \<le> 12"
  shows "days_before_month y m1 \<le> days_before_month y m2"
  using assms(2,3)
proof (induction m2 rule: int_ge_induct)
  case base
  show ?case by simp
next
  case (step i)
  have "days_before_month y (i + 1) = days_before_month y i + days_in_month y i"
    using step assms(1) by (intro days_before_month_step) auto
  then show ?case using step days_in_month_ge [of y i] by simp
qed

lemma days_before_month_nonneg: "1 \<le> m \<Longrightarrow> m \<le> 12 \<Longrightarrow> 0 \<le> days_before_month y m"
  using days_before_month_mono [of 1 m y] by (simp add: days_before_month_1)

lemma month_end_le:
  assumes "1 \<le> m" "m \<le> 12"
  shows "days_before_month y m + days_in_month y m \<le> 365 + (if is_leap y then 1 else 0)"
proof (cases "m = 12")
  case True
  then show ?thesis using days_before_month_12 [of y] by (simp add: days_in_month_12)
next
  case False
  then have m: "m < 12" using assms by simp
  have "days_before_month y m + days_in_month y m = days_before_month y (m + 1)"
    using days_before_month_step [OF assms(1) m] by simp
  also have "\<dots> \<le> days_before_month y 12"
    using assms m by (intro days_before_month_mono) auto
  also have "\<dots> \<le> 365 + (if is_leap y then 1 else 0)"
    using days_before_month_12 [of y] by simp
  finally show ?thesis .
qed

lemma toordinal_ge_1: "valid_date d \<Longrightarrow> 1 \<le> toordinal d"
  using days_before_year_mono [of 1 "year d"] days_before_month_nonneg [of "month d" "year d"]
  by (simp add: valid_date_def toordinal_def days_before_year_1)

lemma date_le_simp:
  "date_le a b = (year a < year b \<or> (year a = year b \<and>
      (month a < month b \<or> (month a = month b \<and> day a \<le> day b))))"
  by (auto simp: date_le_def date_fields_def)

lemma date_lt_simp:
  "date_lt a b = (year a < year b \<or> (year a = year b \<and>
      (month a < month b \<or> (month a = month b \<and> day a < day b))))"
  by (cases a; cases b) (auto simp: date_lt_def date_le_simp)

lemma date_le_total: "\<not> date_le a b \<Longrightarrow> date_lt b a"
  by (auto simp: date_le_simp date_lt_simp)

lemma date_le_refl: "date_le a a"
  by (simp add: date_le_simp)

lemma toordinal_strict:
  assumes "valid_date a" "valid_date b" "date_lt a b"
  shows "toordinal a < toordinal b"
proof -
  have va: "1 \<le> month a" "month a \<le> 12" "1 \<le> day a" "day a \<le> days_in_month (year a) (month a)"
    and vb: "1 \<le> month b" "month b \<le> 12" "1 \<le> day b"
    using assms(1,2) by (simp_all add: valid_date_def)
  consider (y) "year a < year b"
    | (m) "year a = year b" "month a < month b"
    | (d) "year a = year b" "month a = month b" "day a < day b"
    using assms(3) by (auto simp: date_lt_simp)
  then show ?thesis
  proof cases
    case y
    have "toordinal a \<le> days_before_year (year a) + (365 + (if is_leap (year a) then 1 else 0))"
      using month_end_le [OF va(1,2), of "year a"] va(4) by (simp add: toordinal_def)
    also have "\<dots> = days_before_year (year a + 1)"
      using days_before_year_step [of "year a"] by simp
    also have "\<dots> \<le> days_before_year (year b)"
      using y by (intro days_before_year_mono) simp
    also have "\<dots> < toordinal b"
      using days_before_month_nonneg [OF vb(1,2), of "year b"] vb(3) by (simp add: toordinal_def)
    finally show ?thesis .
  next
    case m
    have lt: "month a < 12" using m vb by simp
    have "days_before_month (year a) (month a) + day a \<le> days_before_month (year a) (month a + 1)"
      using days_before_month_step [OF va(1) lt, of "year a"] va(4) by simp
    also have "\<dots> \<le> days_before_month (year a) (month b)"
      using m va vb by (intro days_before_month_mono) auto
    finally show ?thesis using m vb(3) by (simp add: toordinal_def)
  next
    case d
    then show ?thesis by (simp add: toordinal_def)
  qed
qed

lemma date_le_iff:
  assumes "valid_date a" "valid_date b"
  shows "date_le a b \<longleftrightarrow> toordinal a \<le> toordinal b"
proof
  assume le: "date_le a b"
  show "toordinal a \<le> toordinal b"
  proof (cases "a = b")
    case True
    then show ?thesis by simp
  next
    case False
    then have "date_lt a b" using le by (simp add: date_lt_def)
    from toordinal_strict [OF assms this] show ?thesis by simp
  qed
next
  assume le: "toordinal a \<le> toordinal b"
  show "date_le a b"
  proof (rule ccontr)
    assume "\<not> date_le a b"
    then have "date_lt b a" by (rule date_le_total)
    from toordinal_strict [OF assms(2,1) this] le show False by simp
  qed
qed

lemma date_lt_iff:
  assumes "valid_date a" "valid_date b"
  shows "date_lt a b \<longleftrightarrow> toordinal a < toordinal b"
proof
  assume "date_lt a b"
  then show "toordinal a < toordinal b" by (rule toordinal_strict [OF assms])
next
  assume lt: "toordinal a < toordinal b"
  then have "date_le a b" using date_le_iff [OF assms] by simp
  moreover have "a \<noteq> b" using lt by auto
  ultimately show "date_lt a b" by (simp add: date_lt_def)
qed

lemma toordinal_inj:
  assumes "valid_date a" "valid_date b" "toordinal a = toordinal b"
  shows "a = b"
proof (rule ccontr)
  assume ne: "a \<noteq> b"
  have "date_le a b" using date_le_iff [OF assms(1,2)] assms(3) by simp
  then have "date_lt a b" using ne by (simp add: date_lt_def)
  from toordinal_strict [OF assms(1,2) this] assms(3) show False by simp
qed

lemma valid_max_date: "valid_date max_date"
  by (simp add: valid_date_def max_date_def days_in_month_def)

lemma toordinal_le_max: "valid_date d \<Longrightarrow> toordinal d \<le> 3652059"
proof -
  assume v: "valid_date d"
  have "day d \<le> 31" using v days_in_month_le [of "year d" "month d"] by (simp add: valid_date_def)
  then have "date_le d max_date" using v by (auto simp: date_le_simp valid_date_def max_date_def)
  then show ?thesis using date_le_iff [OF v valid_max_date] toordinal_max by simp
qed

lemma add_days_valid:
  assumes "valid_date d" "add_days d n = Inr d'"
  shows "valid_date d' \<and> toordinal d' = toordinal d + int n"
  using assms
proof (induction n arbitrary: d)
  case 0
  then show ?case by simp
next
  case (Suc n)
  then obtain d1 where d1: "next_day d = Inr d1" "add_days d1 n = Inr d'"
    by (auto split: sum.splits)
  from next_day_valid [OF Suc.prems(1) d1(1)] Suc.IH [OF _ d1(2)] show ?case by simp
qed

lemma add_days_ok:
  assumes "valid_date d" "toordinal d + int n \<le> 3652059"
  shows "\<exists>d'. add_days d n = Inr d'"
  using assms
proof (induction n arbitrary: d)
  case 0
  then show ?case by simp
next
  case (Suc n)
  show ?case
  proof (cases "next_day d")
    case (Inl e)
    from next_day_error [OF Suc.prems(1) Inl] toordinal_max Suc.prems(2) show ?thesis by simp
  next
    case (Inr d1)
    from next_day_valid [OF Suc.prems(1) Inr] Suc.prems(2)
    have "valid_date d1" "toordinal d1 + int n \<le> 3652059" by simp_all
    from Suc.IH [OF this] Inr show ?thesis by simp
  qed
qed

lemma sub_days_valid:
  assumes "valid_date d" "sub_days d n = Inr d'"
  shows "valid_date d' \<and> toordinal d' = toordinal d - int n"
  using assms
proof (induction n arbitrary: d)
  case 0
  then show ?case by simp
next
  case (Suc n)
  then obtain d1 where d1: "prev_day d = Inr d1" "sub_days d1 n = Inr d'"
    by (auto split: sum.splits)
  from prev_day_valid [OF Suc.prems(1) d1(1)] Suc.IH [OF _ d1(2)] show ?case by simp
qed

lemma sub_days_ok:
  assumes "valid_date d" "int n < toordinal d"
  shows "\<exists>d'. sub_days d n = Inr d'"
  using assms
proof (induction n arbitrary: d)
  case 0
  then show ?case by simp
next
  case (Suc n)
  show ?case
  proof (cases "prev_day d")
    case (Inl e)
    from prev_day_error [OF Suc.prems(1) Inl] toordinal_min Suc.prems(2) show ?thesis by simp
  next
    case (Inr d1)
    from prev_day_valid [OF Suc.prems(1) Inr] Suc.prems(2)
    have "valid_date d1" "int n < toordinal d1" by simp_all
    from Suc.IH [OF this] Inr show ?thesis by simp
  qed
qed

subsection \<open>What the bucket loop returns\<close>

text \<open>
  \<open>stepwise interval bs\<close>: each bucket of the list is the step of the one before.
  \<open>aligned interval d\<close>: \<open>d\<close> is a bucket start of the interval, a first of the month
  for \<^verbatim>\<open>"month"\<close>, a Monday for \<^verbatim>\<open>"week"\<close>, any date otherwise.
  \<open>bucket_limit interval\<close> is the start of the last bucket of the calendar, whose step
  would leave the range of dates.
\<close>

fun stepwise :: "string \<Rightarrow> date list \<Rightarrow> bool" where
  "stepwise interval [] = True"
| "stepwise interval [b] = True"
| "stepwise interval (a # b # bs) = (bucket_step interval a = Inr b \<and> stepwise interval (b # bs))"

definition aligned :: "string \<Rightarrow> date \<Rightarrow> bool" where
  "aligned interval d =
     (valid_date d \<and>
      (if interval = ''month'' then day d = 1
       else if interval = ''week'' then weekday d = 0 else True))"

definition bucket_limit :: "string \<Rightarrow> date" where
  "bucket_limit interval =
     (if interval = ''month'' then \<lparr>year = 9999, month = 12, day = 1\<rparr>
      else if interval = ''week'' then \<lparr>year = 9999, month = 12, day = 27\<rparr>
      else \<lparr>year = 9999, month = 12, day = 31\<rparr>)"

text \<open>
  For the proofs: the position of a bucket start (months counted for \<^verbatim>\<open>"month"\<close>, days
  otherwise) and the distance between two buckets next to each other.
\<close>

definition rank :: "string \<Rightarrow> date \<Rightarrow> int" where
  "rank interval d = (if interval = ''month'' then 12 * year d + month d else toordinal d)"

definition stride :: "string \<Rightarrow> int" where
  "stride interval = (if interval = ''week'' then 7 else 1)"

lemma stride_pos: "0 < stride interval"
  by (simp add: stride_def)

lemma weekday_shift: "(a + 7 + 6) mod 7 = (a + 6) mod (7 :: int)"
proof -
  have "a + 7 + 6 = a + 6 + 7" by simp
  then show ?thesis by (simp only: mod_add_self2)
qed

lemma step_aligned:
  assumes "aligned interval d" "bucket_step interval d = Inr d'"
  shows "aligned interval d' \<and> rank interval d' = rank interval d + stride interval"
proof -
  have v: "valid_date d" using assms(1) by (simp add: aligned_def)
  consider (m) "interval = ''month''" | (w) "interval = ''week''"
    | (d) "interval \<noteq> ''month''" "interval \<noteq> ''week''" by blast
  then show ?thesis
  proof cases
    case m
    then show ?thesis using assms
      by (auto simp: bucket_step_def mk_date_def Let_def aligned_def rank_def stride_def
          split: if_splits)
  next
    case w
    then have a: "add_days d 7 = Inr d'" using assms(2) by (simp add: bucket_step_def)
    from add_days_valid [OF v a] have d': "valid_date d'" "toordinal d' = toordinal d + 7"
      by simp_all
    have "weekday d' = weekday d"
      unfolding weekday_def d'(2) by (rule weekday_shift)
    then show ?thesis using w assms(1) d' by (simp add: aligned_def rank_def stride_def)
  next
    case d
    then have a: "add_days d 1 = Inr d'" using assms(2) by (simp add: bucket_step_def)
    from add_days_valid [OF v a] show ?thesis using d
      by (simp add: aligned_def rank_def stride_def)
  qed
qed

lemma rank_le:
  assumes "aligned interval a" "aligned interval b"
  shows "date_le a b \<longleftrightarrow> rank interval a \<le> rank interval b"
proof (cases "interval = ''month''")
  case True
  have m: "1 \<le> month a" "month a \<le> 12" "1 \<le> month b" "month b \<le> 12"
    and dd: "day a = 1" "day b = 1"
    using assms True by (simp_all add: aligned_def valid_date_def)
  have "date_le a b \<longleftrightarrow> (year a < year b \<or> (year a = year b \<and> month a \<le> month b))"
    using dd by (auto simp: date_le_simp)
  also have "\<dots> \<longleftrightarrow> 12 * year a + month a \<le> 12 * year b + month b"
    using m by arith
  finally show ?thesis using True by (simp add: rank_def)
next
  case False
  then show ?thesis using assms date_le_iff [of a b] by (simp add: aligned_def rank_def)
qed

lemma rank_inj:
  assumes "aligned interval a" "aligned interval b" "rank interval a = rank interval b"
  shows "a = b"
proof (cases "interval = ''month''")
  case True
  have m: "1 \<le> month a" "month a \<le> 12" "1 \<le> month b" "month b \<le> 12"
    and dd: "day a = day b"
    using assms(1,2) True by (simp_all add: aligned_def valid_date_def)
  have r: "12 * year a + month a = 12 * year b + month b"
    using assms(3) True by (simp add: rank_def)
  have "year a = year b" using m r by arith
  moreover from this have "month a = month b" using r by simp
  ultimately show ?thesis using dd by (cases a; cases b) simp
next
  case False
  then show ?thesis using assms toordinal_inj [of a b] by (simp add: aligned_def rank_def)
qed

lemma step_ok:
  assumes "aligned interval a" "aligned interval b"
    "rank interval a + stride interval \<le> rank interval b"
  shows "\<exists>d'. bucket_step interval a = Inr d'"
proof -
  have va: "valid_date a" and vb: "valid_date b" using assms(1,2) by (simp_all add: aligned_def)
  consider (m) "interval = ''month''" | (w) "interval = ''week''"
    | (d) "interval \<noteq> ''month''" "interval \<noteq> ''week''" by blast
  then show ?thesis
  proof cases
    case m
    have "12 * year a + month a + 1 \<le> 12 * year b + month b"
      using assms(3) m by (simp add: rank_def stride_def)
    then have "month a = 12 \<longrightarrow> year a < 9999" using va vb by (auto simp: valid_date_def)
    then show ?thesis using m va days_in_month_ge [of "year a + 1" 1]
        days_in_month_ge [of "year a" "month a + 1"]
      by (auto simp: bucket_step_def mk_date_def Let_def valid_date_def)
  next
    case w
    have "toordinal a + int 7 \<le> 3652059"
      using assms(3) w toordinal_le_max [OF vb] by (simp add: rank_def stride_def)
    from add_days_ok [OF va this] show ?thesis using w by (simp add: bucket_step_def)
  next
    case d
    have "toordinal a + int 1 \<le> 3652059"
      using assms(3) d toordinal_le_max [OF vb] by (simp add: rank_def stride_def)
    from add_days_ok [OF va this] show ?thesis using d by (simp add: bucket_step_def)
  qed
qed

lemma bucket_loop_stop: "\<not> date_le cur end' \<Longrightarrow> bucket_loop interval acc cur end' = Inr acc"
  by simp

lemma bucket_loop_step:
  "date_le cur end' \<Longrightarrow> bucket_step interval cur = Inr nxt \<Longrightarrow>
   bucket_loop interval acc cur end' = bucket_loop interval (acc @ [cur]) nxt end'"
  by simp

lemma bucket_loop_error:
  "date_le cur end' \<Longrightarrow> bucket_step interval cur = Inl e \<Longrightarrow>
   bucket_loop interval acc cur end' = Inl e"
  by simp

declare bucket_loop.simps [simp del]

lemma bucket_loop_run:
  assumes "aligned interval end'" "bucket_step interval end' = Inr x"
  shows "aligned interval cur \<Longrightarrow> rank interval end' = rank interval cur + stride interval * int n \<Longrightarrow>
     \<exists>bs. bucket_loop interval acc cur end' = Inr (acc @ bs) \<and> bs \<noteq> [] \<and> hd bs = cur \<and>
          last bs = end' \<and> stepwise interval bs \<and> sorted_wrt date_lt bs \<and>
          (\<forall>b \<in> set bs. aligned interval b \<and> rank interval cur \<le> rank interval b)"
proof (induction n arbitrary: cur acc)
  case 0
  then have eq: "cur = end'" using rank_inj [OF "0.prems"(1) assms(1)] by simp
  have x: "aligned interval x" "rank interval x = rank interval end' + stride interval"
    using step_aligned [OF assms] by simp_all
  have "\<not> date_le x end'" using rank_le [OF x(1) assms(1)] x(2) stride_pos [of interval] by simp
  then have "bucket_loop interval (acc @ [cur]) x end' = Inr (acc @ [cur])"
    by (rule bucket_loop_stop)
  moreover have "bucket_loop interval acc cur end' = bucket_loop interval (acc @ [cur]) x end'"
    using eq assms(2) by (intro bucket_loop_step) (simp_all add: date_le_refl)
  ultimately show ?case using eq "0.prems"(1) by simp
next
  case (Suc n)
  have s: "0 < stride interval" by (rule stride_pos)
  have "0 \<le> stride interval * int n" using s by simp
  then have le: "rank interval cur + stride interval \<le> rank interval end'"
    using Suc.prems(2) by (simp add: algebra_simps)
  then have dle: "date_le cur end'" using rank_le [OF Suc.prems(1) assms(1)] s by simp
  obtain d' where d': "bucket_step interval cur = Inr d'"
    using step_ok [OF Suc.prems(1) assms(1) le] by blast
  have a': "aligned interval d'" and r': "rank interval d' = rank interval cur + stride interval"
    using step_aligned [OF Suc.prems(1) d'] by simp_all
  have "rank interval end' = rank interval d' + stride interval * int n"
    using Suc.prems(2) r' by (simp add: algebra_simps)
  from Suc.IH [OF a' this, of "acc @ [cur]"]
  obtain bs where bs: "bucket_loop interval (acc @ [cur]) d' end' = Inr ((acc @ [cur]) @ bs)"
    "bs \<noteq> []" "hd bs = d'" "last bs = end'" "stepwise interval bs" "sorted_wrt date_lt bs"
    "\<forall>b \<in> set bs. aligned interval b \<and> rank interval d' \<le> rank interval b"
    by blast
  have run: "bucket_loop interval acc cur end' = Inr (acc @ (cur # bs))"
    using bucket_loop_step [OF dle d', of acc] bs(1) by simp
  have sw: "stepwise interval (cur # bs)"
    using bs(2,3,5) d' by (cases bs) simp_all
  have lt: "\<forall>b \<in> set bs. date_lt cur b"
  proof
    fix b assume b: "b \<in> set bs"
    then have ab: "aligned interval b" and rb: "rank interval d' \<le> rank interval b"
      using bs(7) by simp_all
    have "date_le cur b" using rank_le [OF Suc.prems(1) ab] rb r' s by simp
    moreover have "cur \<noteq> b" using rb r' s by auto
    ultimately show "date_lt cur b" by (simp add: date_lt_def)
  qed
  have al: "\<forall>b \<in> set (cur # bs). aligned interval b \<and> rank interval cur \<le> rank interval b"
    using bs(7) Suc.prems(1) r' s by auto
  show ?case using run sw lt al bs(2,4,6) by (intro exI [of _ "cur # bs"]) simp
qed

definition key_rank :: "string \<Rightarrow> date \<Rightarrow> int" where
  "key_rank interval d =
     (if interval = ''month'' then 12 * year d + month d
      else if interval = ''week'' then toordinal d - weekday d
      else toordinal d)"

lemma weekday_range: "0 \<le> weekday d" "weekday d < 7"
  by (simp_all add: weekday_def)

lemma monday_arith:
  fixes a :: int
  shows "(a - (a + 6) mod 7 + 6) mod 7 = 0"
  by presburger

lemma monday_ge_1:
  fixes a :: int
  shows "1 \<le> a \<Longrightarrow> (a + 6) mod 7 < a"
  by presburger

lemma monday_div:
  fixes a :: int
  shows "a - (a + 6) mod 7 = 7 * ((a + 6) div 7) - 6"
  by presburger

lemma bucket_key_props:
  assumes "valid_date (dt_date t)"
  shows "\<exists>k. bucket_key t interval = Inr k \<and> aligned interval k \<and>
            rank interval k = key_rank interval (dt_date t)"
proof -
  let ?d = "dt_date t"
  consider (m) "interval = ''month''" | (w) "interval = ''week''"
    | (d) "interval \<noteq> ''month''" "interval \<noteq> ''week''" by blast
  then show ?thesis
  proof cases
    case m
    then show ?thesis using assms days_in_month_ge [of "year ?d" "month ?d"]
      by (simp add: bucket_key_def mk_date_def Let_def valid_date_def aligned_def rank_def
          key_rank_def)
  next
    case w
    define n where "n = nat (weekday ?d)"
    have n: "int n = weekday ?d" using weekday_range [of ?d] by (simp add: n_def)
    have "int n < toordinal ?d"
      unfolding n weekday_def using monday_ge_1 [OF toordinal_ge_1 [OF assms]] .
    from sub_days_ok [OF assms this] obtain k where k: "sub_days ?d n = Inr k" by blast
    from sub_days_valid [OF assms k] have vk: "valid_date k"
      and ok: "toordinal k = toordinal ?d - weekday ?d" by (simp_all add: n)
    have "weekday k = 0"
      unfolding weekday_def [of k] ok unfolding weekday_def by (rule monday_arith)
    then show ?thesis using w k vk ok
      by (simp add: bucket_key_def aligned_def rank_def key_rank_def n_def)
  next
    case d
    then show ?thesis using assms by (simp add: bucket_key_def aligned_def rank_def key_rank_def)
  qed
qed

lemma ex_nat_diff: "(a :: int) \<le> b \<Longrightarrow> \<exists>n. b = a + int n"
  by (rule exI [of _ "nat (b - a)"]) simp

lemma key_rank_mono:
  assumes "valid_date a" "valid_date b" "date_le a b"
  shows "\<exists>n. key_rank interval b = key_rank interval a + stride interval * int n"
proof -
  have o: "toordinal a \<le> toordinal b" using date_le_iff [OF assms(1,2)] assms(3) by simp
  consider (m) "interval = ''month''" | (w) "interval = ''week''"
    | (d) "interval \<noteq> ''month''" "interval \<noteq> ''week''" by blast
  then show ?thesis
  proof cases
    case m
    have mm: "1 \<le> month a" "month a \<le> 12" "1 \<le> month b" "month b \<le> 12"
      using assms(1,2) by (simp_all add: valid_date_def)
    have "year a < year b \<or> (year a = year b \<and> month a \<le> month b)"
      using assms(3) by (auto simp: date_le_simp)
    then have "12 * year a + month a \<le> 12 * year b + month b" using mm by arith
    from ex_nat_diff [OF this] show ?thesis using m by (simp add: key_rank_def stride_def)
  next
    case w
    define qa where "qa = (toordinal a + 6) div 7"
    define qb where "qb = (toordinal b + 6) div 7"
    have q: "qa \<le> qb" unfolding qa_def qb_def using o by (intro zdiv_mono1) simp_all
    have r: "key_rank interval a = 7 * qa - 6" "key_rank interval b = 7 * qb - 6"
      using w by (simp_all add: key_rank_def weekday_def monday_div qa_def qb_def)
    from ex_nat_diff [OF q] obtain n where "qb = qa + int n" by blast
    then have "key_rank interval b = key_rank interval a + 7 * int n" using r by simp
    then show ?thesis using w by (auto simp: stride_def)
  next
    case d
    from ex_nat_diff [OF o] show ?thesis using d by (simp add: key_rank_def stride_def)
  qed
qed

lemma dt_le_date: "dt_le a b \<Longrightarrow> date_le (dt_date a) (dt_date b)"
  by (auto simp: dt_le_def dt_fields_def date_le_def date_fields_def)

lemma toordinal_limit_week: "toordinal \<lparr>year = 9999, month = 12, day = 27\<rparr> = 3652055"
  by (simp add: toordinal_def days_before_year_def days_before_month_def
      DAYS_BEFORE_MONTH_def is_leap_def)

lemma valid_limit_week: "valid_date \<lparr>year = 9999, month = 12, day = 27\<rparr>"
  by (simp add: valid_date_def days_in_month_def)

lemma last_monday:
  fixes a :: int
  shows "(a + 6) mod 7 = 0 \<Longrightarrow> a < 3652055 \<Longrightarrow> a + 7 \<le> 3652059"
  by presburger

lemma limit_step_ok:
  assumes v: "valid_date (dt_date t)"
    and lim: "date_lt (dt_date t) (bucket_limit interval)"
    and k: "bucket_key t interval = Inr k"
  shows "\<exists>x. bucket_step interval k = Inr x"
proof -
  let ?d = "dt_date t"
  consider (m) "interval = ''month''" | (w) "interval = ''week''"
    | (d) "interval \<noteq> ''month''" "interval \<noteq> ''week''" by blast
  then show ?thesis
  proof cases
    case m
    have kk: "k = \<lparr>year = year ?d, month = month ?d, day = 1\<rparr>"
      using k m by (simp add: bucket_key_def mk_date_def Let_def split: if_splits)
    have "year ?d < 9999 \<or> (year ?d = 9999 \<and> month ?d < 12)"
      using lim m v by (auto simp: bucket_limit_def date_lt_simp valid_date_def)
    then show ?thesis using m v days_in_month_ge [of "year ?d + 1" 1]
        days_in_month_ge [of "year ?d" "month ?d + 1"]
      by (auto simp: kk bucket_step_def mk_date_def Let_def valid_date_def)
  next
    case w
    from bucket_key_props [OF v, of interval] k
    have ak: "aligned interval k" and rk: "rank interval k = key_rank interval ?d" by simp_all
    have vk: "valid_date k" and mon: "(toordinal k + 6) mod 7 = 0"
      using ak w by (simp_all add: aligned_def weekday_def)
    have "toordinal ?d < 3652055"
      using toordinal_strict [OF v valid_limit_week] lim w
      by (simp add: bucket_limit_def toordinal_limit_week)
    moreover have "toordinal k \<le> toordinal ?d"
      using rk w weekday_range [of ?d] by (simp add: rank_def key_rank_def)
    ultimately have "toordinal k < 3652055" by simp
    from last_monday [OF mon this] have "toordinal k + int 7 \<le> 3652059" by simp
    from add_days_ok [OF vk this] show ?thesis using w by (simp add: bucket_step_def)
  next
    case d
    have kk: "k = ?d" using k d by (simp add: bucket_key_def)
    have "toordinal ?d < 3652059"
      using toordinal_strict [OF v valid_max_date] lim d toordinal_max
      by (simp add: bucket_limit_def max_date_def)
    then have "toordinal ?d + int 1 \<le> 3652059" by simp
    from add_days_ok [OF v this] show ?thesis using d by (simp add: bucket_step_def kk)
  qed
qed

lemma iter_buckets_loop:
  assumes "bucket_key date_from interval = Inr kf" "bucket_key date_to interval = Inr kt"
  shows "iter_buckets date_from date_to interval = bucket_loop interval [] kf kt"
  using assms by (auto simp: iter_buckets_def bucket_key_def)

text \<open>
  Claim C3, as the code has it. For valid datetimes with \<open>date_from \<le> date_to\<close>, where
  \<open>date_to\<close> lies before the last bucket of the calendar (before 9999-12-31 for day,
  before Monday 9999-12-27 for week, before 9999-12-01 for month), \<^verbatim>\<open>_iter_buckets\<close>
  returns a list that is not empty, starts at the bucket of \<open>date_from\<close>, ends at the
  bucket of \<open>date_to\<close>, is strictly increasing, advances by the interval's step from
  each bucket to the next (one day; seven days; one month, December to January of the
  next year) and holds only bucket starts of the interval (any day; Mondays; firsts of
  the month).
\<close>

theorem iter_buckets_complete:
  assumes "valid_datetime date_from" "valid_datetime date_to" "dt_le date_from date_to"
    and "date_lt (dt_date date_to) (bucket_limit interval)"
  shows "\<exists>bs kf kt. iter_buckets date_from date_to interval = Inr bs \<and>
           bucket_key date_from interval = Inr kf \<and> bucket_key date_to interval = Inr kt \<and>
           bs \<noteq> [] \<and> hd bs = kf \<and> last bs = kt \<and>
           sorted_wrt date_lt bs \<and> stepwise interval bs \<and> list_all (aligned interval) bs"
proof -
  have vf: "valid_date (dt_date date_from)" and vt: "valid_date (dt_date date_to)"
    using assms(1,2) by (simp_all add: valid_datetime_def)
  obtain kf where kf: "bucket_key date_from interval = Inr kf" "aligned interval kf"
    "rank interval kf = key_rank interval (dt_date date_from)"
    using bucket_key_props [OF vf] by blast
  obtain kt where kt: "bucket_key date_to interval = Inr kt" "aligned interval kt"
    "rank interval kt = key_rank interval (dt_date date_to)"
    using bucket_key_props [OF vt] by blast
  obtain x where x: "bucket_step interval kt = Inr x"
    using limit_step_ok [OF vt assms(4) kt(1)] by blast
  obtain n where n: "rank interval kt = rank interval kf + stride interval * int n"
    using key_rank_mono [OF vf vt dt_le_date [OF assms(3)]] kf(3) kt(3) by auto
  from bucket_loop_run [OF kt(2) x kf(2) n, of "[]"]
  obtain bs where bs: "bucket_loop interval [] kf kt = Inr bs" "bs \<noteq> []" "hd bs = kf"
    "last bs = kt" "stepwise interval bs" "sorted_wrt date_lt bs"
    "\<forall>b \<in> set bs. aligned interval b"
    by auto
  have "iter_buckets date_from date_to interval = Inr bs"
    using iter_buckets_loop [OF kf(1) kt(1)] bs(1) by simp
  then show ?thesis using kf(1) kt(1) bs by (auto simp: list_all_iff)
qed

theorem iter_buckets_complete_witness:
  "valid_datetime (dt 2023 12 30 0 0 0 0) \<and> valid_datetime (dt 2024 1 2 23 59 59 999999) \<and>
   dt_le (dt 2023 12 30 0 0 0 0) (dt 2024 1 2 23 59 59 999999) \<and>
   date_lt (dt_date (dt 2024 1 2 23 59 59 999999)) (bucket_limit ''day'') \<and>
   iter_buckets (dt 2023 12 30 0 0 0 0) (dt 2024 1 2 23 59 59 999999) ''day'' =
     Inr [\<lparr>year = 2023, month = 12, day = 30\<rparr>, \<lparr>year = 2023, month = 12, day = 31\<rparr>,
          \<lparr>year = 2024, month = 1, day = 1\<rparr>, \<lparr>year = 2024, month = 1, day = 2\<rparr>] \<and>
   sorted_wrt date_lt [\<lparr>year = 2023, month = 12, day = 30\<rparr>, \<lparr>year = 2023, month = 12, day = 31\<rparr>,
          \<lparr>year = 2024, month = 1, day = 1\<rparr>, \<lparr>year = 2024, month = 1, day = 2\<rparr>]"
proof -
  have h: "valid_datetime (dt 2023 12 30 0 0 0 0)" "valid_datetime (dt 2024 1 2 23 59 59 999999)"
    "dt_le (dt 2023 12 30 0 0 0 0) (dt 2024 1 2 23 59 59 999999)"
    "date_lt (dt_date (dt 2024 1 2 23 59 59 999999)) (bucket_limit ''day'')"
    by code_simp+
  have e: "iter_buckets (dt 2023 12 30 0 0 0 0) (dt 2024 1 2 23 59 59 999999) ''day'' =
     Inr [\<lparr>year = 2023, month = 12, day = 30\<rparr>, \<lparr>year = 2023, month = 12, day = 31\<rparr>,
          \<lparr>year = 2024, month = 1, day = 1\<rparr>, \<lparr>year = 2024, month = 1, day = 2\<rparr>]"
    by code_simp
  from iter_buckets_complete [OF h] e h show ?thesis by auto
qed

text \<open>
  Claim C3 as stated fails on the last day of the calendar: the loop appends
  9999-12-31 and then steps past it, which raises \<^verbatim>\<open>OverflowError\<close>.
\<close>

theorem iter_buckets_overflow_counterexample:
  "valid_datetime (dt 9999 12 31 0 0 0 0) \<and> valid_datetime (dt 9999 12 31 23 59 59 999999) \<and>
   dt_le (dt 9999 12 31 0 0 0 0) (dt 9999 12 31 23 59 59 999999) \<and>
   iter_buckets (dt 9999 12 31 0 0 0 0) (dt 9999 12 31 23 59 59 999999) ''day''
     = Inl OverflowError"
  by code_simp

lemma monday_before_limit:
  fixes a :: int
  shows "(a + 6) mod 7 = 0 \<Longrightarrow> a + 7 \<le> 3652059 \<Longrightarrow> a + 6 < 3652055"
  by presburger

lemma step_ok_limit:
  assumes v: "valid_date (dt_date t)"
    and k: "bucket_key t interval = Inr k"
    and s: "bucket_step interval k = Inr x"
  shows "date_lt (dt_date t) (bucket_limit interval)"
proof -
  let ?d = "dt_date t"
  from bucket_key_props [OF v, of interval] k
  have ak: "aligned interval k" and rk: "rank interval k = key_rank interval ?d" by simp_all
  from step_aligned [OF ak s]
  have ax: "aligned interval x" and rx: "rank interval x = rank interval k + stride interval"
    by simp_all
  have vx: "valid_date x" using ax by (simp add: aligned_def)
  consider (m) "interval = ''month''" | (w) "interval = ''week''"
    | (d) "interval \<noteq> ''month''" "interval \<noteq> ''week''" by blast
  then show ?thesis
  proof cases
    case m
    have "12 * year x + month x = 12 * year ?d + month ?d + 1"
      using rx rk m by (simp add: rank_def key_rank_def stride_def)
    moreover have "year x \<le> 9999" "month x \<le> 12" using vx by (simp_all add: valid_date_def)
    ultimately have "12 * year ?d + month ?d < 12 * 9999 + 12" by arith
    moreover have "1 \<le> month ?d" "month ?d \<le> 12" using v by (simp_all add: valid_date_def)
    ultimately have "year ?d < 9999 \<or> (year ?d = 9999 \<and> month ?d < 12)" by arith
    then show ?thesis using m by (auto simp: bucket_limit_def date_lt_simp)
  next
    case w
    have mon: "(toordinal k + 6) mod 7 = 0" using ak w by (simp add: aligned_def weekday_def)
    have "toordinal x = toordinal k + 7" using rx w by (simp add: rank_def stride_def)
    then have "toordinal k + 7 \<le> 3652059" using toordinal_le_max [OF vx] by simp
    from monday_before_limit [OF mon this] have "toordinal k + 6 < 3652055" .
    moreover have "toordinal ?d = toordinal k + weekday ?d"
      using rk w by (simp add: rank_def key_rank_def)
    ultimately have "toordinal ?d < 3652055" using weekday_range [of ?d] by simp
    then show ?thesis using date_lt_iff [OF v valid_limit_week] w
      by (simp add: bucket_limit_def toordinal_limit_week)
  next
    case d
    have "toordinal x = toordinal k + 1" using rx d by (simp add: rank_def stride_def)
    moreover have "toordinal k = toordinal ?d" using rk d by (simp add: rank_def key_rank_def)
    ultimately have "toordinal ?d < 3652059" using toordinal_le_max [OF vx] by simp
    then show ?thesis using date_lt_iff [OF v valid_max_date] d toordinal_max
      by (simp add: bucket_limit_def max_date_def)
  qed
qed

text \<open>
  Claim C4, as the code has it. For valid datetimes with \<open>date_from > date_to\<close> both
  bucket keys exist, and they are equal exactly when the two dates lie in the same day,
  Monday-to-Sunday week or month (\<open>key_rank\<close>). When the keys differ the list is empty.
  When they are equal and \<open>date_to\<close> lies before the last bucket of the calendar
  (\<open>bucket_limit\<close>) the list holds that one bucket; in the last bucket of the calendar
  the step past it raises.
\<close>

theorem iter_buckets_reversed:
  assumes "valid_datetime date_from" "valid_datetime date_to" "dt_lt date_to date_from"
  shows "\<exists>kf kt. bucket_key date_from interval = Inr kf \<and> bucket_key date_to interval = Inr kt \<and>
           (kf = kt) = (key_rank interval (dt_date date_from) = key_rank interval (dt_date date_to)) \<and>
           (kf \<noteq> kt \<longrightarrow> iter_buckets date_from date_to interval = Inr []) \<and>
           (kf = kt \<and> date_lt (dt_date date_to) (bucket_limit interval) \<longrightarrow>
              iter_buckets date_from date_to interval = Inr [kf]) \<and>
           (kf = kt \<and> \<not> date_lt (dt_date date_to) (bucket_limit interval) \<longrightarrow>
              (\<exists>e. iter_buckets date_from date_to interval = Inl e))"
proof -
  have vf: "valid_date (dt_date date_from)" and vt: "valid_date (dt_date date_to)"
    using assms(1,2) by (simp_all add: valid_datetime_def)
  obtain kf where kf: "bucket_key date_from interval = Inr kf" "aligned interval kf"
    "rank interval kf = key_rank interval (dt_date date_from)"
    using bucket_key_props [OF vf] by blast
  obtain kt where kt: "bucket_key date_to interval = Inr kt" "aligned interval kt"
    "rank interval kt = key_rank interval (dt_date date_to)"
    using bucket_key_props [OF vt] by blast
  have "date_le (dt_date date_to) (dt_date date_from)"
    using assms(3) by (intro dt_le_date) (simp add: dt_lt_def)
  from key_rank_mono [OF vt vf this, of interval]
  have le: "rank interval kt \<le> rank interval kf"
    using kf(3) kt(3) stride_pos [of interval] by auto
  have run: "iter_buckets date_from date_to interval = bucket_loop interval [] kf kt"
    by (rule iter_buckets_loop [OF kf(1) kt(1)])
  have same: "(kf = kt) = (key_rank interval (dt_date date_from) = key_rank interval (dt_date date_to))"
    using rank_inj [OF kf(2) kt(2)] kf(3) kt(3) by auto
  have diff: "iter_buckets date_from date_to interval = Inr []" if "kf \<noteq> kt"
  proof -
    have "rank interval kf \<noteq> rank interval kt" using rank_inj [OF kf(2) kt(2)] that by blast
    then have "\<not> date_le kf kt" using rank_le [OF kf(2) kt(2)] le by simp
    then show ?thesis using run by (simp add: bucket_loop_stop)
  qed
  have one: "iter_buckets date_from date_to interval = Inr [kf]"
    if e: "kf = kt" and l: "date_lt (dt_date date_to) (bucket_limit interval)"
  proof -
    obtain nxt where nxt: "bucket_step interval kf = Inr nxt"
      using limit_step_ok [OF vt l kt(1)] e by blast
    have n: "aligned interval nxt" "rank interval nxt = rank interval kf + stride interval"
      using step_aligned [OF kf(2) nxt] by simp_all
    have "\<not> date_le nxt kf"
      using rank_le [OF n(1) kf(2)] n(2) stride_pos [of interval] by simp
    then have "bucket_loop interval ([] @ [kf]) nxt kf = Inr ([] @ [kf])"
      by (rule bucket_loop_stop)
    then show ?thesis using e nxt run bucket_loop_step [of kf kf interval nxt "[]"]
      by (simp add: date_le_refl)
  qed
  have err: "\<exists>e. iter_buckets date_from date_to interval = Inl e"
    if e: "kf = kt" and l: "\<not> date_lt (dt_date date_to) (bucket_limit interval)"
  proof (cases "bucket_step interval kf")
    case (Inl e)
    then show ?thesis using e run bucket_loop_error [of kf kf interval e "[]"]
      by (simp add: date_le_refl)
  next
    case (Inr nxt)
    then have "bucket_step interval kt = Inr nxt" using e by simp
    from step_ok_limit [OF vt kt(1) this] l show ?thesis by simp
  qed
  show ?thesis using kf(1) kt(1) same diff one err by blast
qed

theorem iter_buckets_reversed_witness:
  "valid_datetime (dt 2024 1 20 0 0 0 0) \<and> valid_datetime (dt 2024 1 10 23 59 59 999999) \<and>
   dt_lt (dt 2024 1 10 23 59 59 999999) (dt 2024 1 20 0 0 0 0) \<and>
   bucket_key (dt 2024 1 20 0 0 0 0) ''week'' = Inr \<lparr>year = 2024, month = 1, day = 15\<rparr> \<and>
   bucket_key (dt 2024 1 10 23 59 59 999999) ''week'' = Inr \<lparr>year = 2024, month = 1, day = 8\<rparr> \<and>
   iter_buckets (dt 2024 1 20 0 0 0 0) (dt 2024 1 10 23 59 59 999999) ''week'' = Inr [] \<and>
   valid_datetime (dt 2024 3 20 0 0 0 0) \<and> valid_datetime (dt 2024 3 5 23 59 59 999999) \<and>
   dt_lt (dt 2024 3 5 23 59 59 999999) (dt 2024 3 20 0 0 0 0) \<and>
   date_lt (dt_date (dt 2024 3 5 23 59 59 999999)) (bucket_limit ''month'') \<and>
   bucket_key (dt 2024 3 20 0 0 0 0) ''month'' = Inr \<lparr>year = 2024, month = 3, day = 1\<rparr> \<and>
   bucket_key (dt 2024 3 5 23 59 59 999999) ''month'' = Inr \<lparr>year = 2024, month = 3, day = 1\<rparr> \<and>
   iter_buckets (dt 2024 3 20 0 0 0 0) (dt 2024 3 5 23 59 59 999999) ''month''
     = Inr [\<lparr>year = 2024, month = 3, day = 1\<rparr>] \<and>
   valid_datetime (dt 9999 12 3 0 0 0 0) \<and> valid_datetime (dt 9999 12 2 23 59 59 999999) \<and>
   dt_lt (dt 9999 12 2 23 59 59 999999) (dt 9999 12 3 0 0 0 0) \<and>
   \<not> date_lt (dt_date (dt 9999 12 2 23 59 59 999999)) (bucket_limit ''month'') \<and>
   isl (iter_buckets (dt 9999 12 3 0 0 0 0) (dt 9999 12 2 23 59 59 999999) ''month'')"
proof -
  have h1: "valid_datetime (dt 2024 1 20 0 0 0 0)" "valid_datetime (dt 2024 1 10 23 59 59 999999)"
    "dt_lt (dt 2024 1 10 23 59 59 999999) (dt 2024 1 20 0 0 0 0)"
    by code_simp+
  have k1: "bucket_key (dt 2024 1 20 0 0 0 0) ''week'' = Inr \<lparr>year = 2024, month = 1, day = 15\<rparr>"
    "bucket_key (dt 2024 1 10 23 59 59 999999) ''week'' = Inr \<lparr>year = 2024, month = 1, day = 8\<rparr>"
    by code_simp+
  have h2: "valid_datetime (dt 2024 3 20 0 0 0 0)" "valid_datetime (dt 2024 3 5 23 59 59 999999)"
    "dt_lt (dt 2024 3 5 23 59 59 999999) (dt 2024 3 20 0 0 0 0)"
    by code_simp+
  have l2: "date_lt (dt_date (dt 2024 3 5 23 59 59 999999)) (bucket_limit ''month'')"
    by code_simp
  have k2: "bucket_key (dt 2024 3 20 0 0 0 0) ''month'' = Inr \<lparr>year = 2024, month = 3, day = 1\<rparr>"
    "bucket_key (dt 2024 3 5 23 59 59 999999) ''month'' = Inr \<lparr>year = 2024, month = 3, day = 1\<rparr>"
    by code_simp+
  have h3: "valid_datetime (dt 9999 12 3 0 0 0 0)" "valid_datetime (dt 9999 12 2 23 59 59 999999)"
    "dt_lt (dt 9999 12 2 23 59 59 999999) (dt 9999 12 3 0 0 0 0)"
    by code_simp+
  have l3: "\<not> date_lt (dt_date (dt 9999 12 2 23 59 59 999999)) (bucket_limit ''month'')"
    by code_simp
  have k3: "bucket_key (dt 9999 12 3 0 0 0 0) ''month'' = Inr \<lparr>year = 9999, month = 12, day = 1\<rparr>"
    "bucket_key (dt 9999 12 2 23 59 59 999999) ''month'' = Inr \<lparr>year = 9999, month = 12, day = 1\<rparr>"
    by code_simp+
  have a: "iter_buckets (dt 2024 1 20 0 0 0 0) (dt 2024 1 10 23 59 59 999999) ''week'' = Inr []"
    using iter_buckets_reversed [OF h1, of "''week''"] k1 by auto
  have b: "iter_buckets (dt 2024 3 20 0 0 0 0) (dt 2024 3 5 23 59 59 999999) ''month''
     = Inr [\<lparr>year = 2024, month = 3, day = 1\<rparr>]"
    using iter_buckets_reversed [OF h2, of "''month''"] k2 l2 by auto
  have c: "isl (iter_buckets (dt 9999 12 3 0 0 0 0) (dt 9999 12 2 23 59 59 999999) ''month'')"
    using iter_buckets_reversed [OF h3, of "''month''"] k3 l3 by auto
  show ?thesis using h1 k1 a h2 l2 k2 b h3 l3 c by simp
qed

text \<open>
  Claim C4 as stated fails: Wednesday 2024-01-03 is after Tuesday 2024-01-02, both lie
  in the week of Monday 2024-01-01, and the list holds that Monday.
\<close>

theorem iter_buckets_same_week_counterexample:
  "valid_datetime (dt 2024 1 3 0 0 0 0) \<and> valid_datetime (dt 2024 1 2 23 59 59 999999) \<and>
   dt_lt (dt 2024 1 2 23 59 59 999999) (dt 2024 1 3 0 0 0 0) \<and>
   iter_buckets (dt 2024 1 3 0 0 0 0) (dt 2024 1 2 23 59 59 999999) ''week''
     = Inr [\<lparr>year = 2024, month = 1, day = 1\<rparr>]"
  by code_simp

section \<open>Tickets and the completion classifier\<close>

text \<open>
  A row of \<^verbatim>\<open>pd_ticket_master\<close> (\<^verbatim>\<open>PDTicket\<close>) with the columns the reports read.
  A column that the code treats as possibly \<^verbatim>\<open>None\<close> is an option.
\<close>

record ticket =
  ticket_sid :: int
  project_sid :: int
  ticket_no :: string
  ticket_name :: string
  ticket_type :: "int option"
  ticket_status :: "string option"
  ticket_priority :: "string option"
  status :: int
  create_dt :: "datetime option"
  update_dt :: "datetime option"

text \<open>
  \<^verbatim>\<open>DONE_KEYWORDS\<close> (\<^verbatim>\<open>_DONE_WORDS\<close> in \<^verbatim>\<open>reports_sla_overdue.py\<close>): eight English
  keywords and eight Chinese ones, the latter written as their UTF-8 bytes. \<open>is_done\<close>
  is \<^verbatim>\<open>_is_done\<close>: \<^verbatim>\<open>any(k in s for k in _DONE_KEYWORDS_LOWER)\<close> on the lowercased
  status.
\<close>

definition DONE_KEYWORDS :: "string list" where
  "DONE_KEYWORDS =
     [''done'', ''closed'', ''resolve'', ''resolved'', ''finish'', ''finished'', ''complete'',
      ''completed'',
      [CHR 0xE5, CHR 0xAE, CHR 0x8C, CHR 0xE6, CHR 0x88, CHR 0x90],
      [CHR 0xE5, CHR 0xB7, CHR 0xB2, CHR 0xE5, CHR 0xAE, CHR 0x8C, CHR 0xE6, CHR 0x88, CHR 0x90],
      [CHR 0xE7, CHR 0xB5, CHR 0x90, CHR 0xE6, CHR 0xA1, CHR 0x88],
      [CHR 0xE5, CHR 0xB7, CHR 0xB2, CHR 0xE7, CHR 0xB5, CHR 0x90, CHR 0xE6, CHR 0xA1, CHR 0x88],
      [CHR 0xE9, CHR 0x97, CHR 0x9C, CHR 0xE9, CHR 0x96, CHR 0x89],
      [CHR 0xE5, CHR 0xB7, CHR 0xB2, CHR 0xE9, CHR 0x97, CHR 0x9C, CHR 0xE9, CHR 0x96, CHR 0x89],
      [CHR 0xE5, CHR 0xB7, CHR 0xB2, CHR 0xE8, CHR 0x99, CHR 0x95, CHR 0xE7, CHR 0x90, CHR 0x86],
      [CHR 0xE5, CHR 0xB7, CHR 0xB2, CHR 0xE8, CHR 0xA7, CHR 0xA3, CHR 0xE6, CHR 0xB1, CHR 0xBA]]"

definition DONE_KEYWORDS_LOWER :: "string list" where
  "DONE_KEYWORDS_LOWER = map str_lower DONE_KEYWORDS"

definition is_done :: "string option \<Rightarrow> bool" where
  "is_done st =
     (let s = str_lower (case st of None \<Rightarrow> [] | Some x \<Rightarrow> x)
      in list_ex (\<lambda>k. str_contains s k) DONE_KEYWORDS_LOWER)"

subsection \<open>Open tickets of the project-progress report\<close>

text \<open>
  \<^verbatim>\<open>_query_project_progress\<close> counts \<^verbatim>\<open>open_now\<close> and lists the oldest open tickets
  with the SQL filter
  \<^verbatim>\<open>status == 1, project_sid == project_sid, ~lower(ticket_status).in_(_DONE_KEYWORDS_LOWER)\<close>.
  SQL's logic has three values: on a \<^verbatim>\<open>NULL\<close> status the condition is \<^verbatim>\<open>NULL\<close> and the
  row is left out. Strings are compared as they are; what a collation of the database
  may identify beyond that is not modelled.
\<close>

definition sql_lower_in :: "string option \<Rightarrow> string list \<Rightarrow> bool option" where
  "sql_lower_in col ks = (case col of None \<Rightarrow> None | Some x \<Rightarrow> Some (str_lower x \<in> set ks))"

definition sql_not :: "bool option \<Rightarrow> bool option" where
  "sql_not b = map_option Not b"

definition progress_open_filter :: "int \<Rightarrow> ticket \<Rightarrow> bool" where
  "progress_open_filter psid r =
     (status r = 1 \<and> project_sid r = psid \<and>
      sql_not (sql_lower_in (ticket_status r) DONE_KEYWORDS_LOWER) = Some True)"

definition progress_open_now :: "int \<Rightarrow> ticket list \<Rightarrow> int" where
  "progress_open_now psid table = int (length (filter (progress_open_filter psid) table))"

text \<open>
  Claim C10. For a ticket of the project whose status contains a completion keyword,
  the completion classifier says done, while the filter of \<^verbatim>\<open>open_now\<close> and of the
  oldest-open list keeps the ticket exactly when its lowercased status is not equal to
  one of the keywords: such a ticket adds one to \<^verbatim>\<open>open_now\<close>.
\<close>

theorem open_now_exact_match:
  assumes "status r = 1" "project_sid r = psid" "ticket_status r = Some s"
    and "k \<in> set DONE_KEYWORDS_LOWER" "str_contains (str_lower s) k"
  shows "is_done (ticket_status r) \<and>
         progress_open_filter psid r = (str_lower s \<notin> set DONE_KEYWORDS_LOWER) \<and>
         progress_open_now psid (pre @ r # post) =
           progress_open_now psid (pre @ post) + (if str_lower s \<in> set DONE_KEYWORDS_LOWER then 0 else 1)"
proof -
  have d: "is_done (ticket_status r)"
    using assms(3-5) by (auto simp: is_done_def list_ex_iff)
  have f: "progress_open_filter psid r = (str_lower s \<notin> set DONE_KEYWORDS_LOWER)"
    using assms(1-3) by (simp add: progress_open_filter_def sql_not_def sql_lower_in_def)
  show ?thesis using d f by (simp add: progress_open_now_def)
qed

theorem open_now_exact_match_witness:
  "''closed'' \<in> set DONE_KEYWORDS_LOWER \<and>
   str_contains (str_lower ''closed - verified'') ''closed'' \<and>
   str_lower ''closed - verified'' \<notin> set DONE_KEYWORDS_LOWER \<and>
   is_done (Some ''closed - verified'') \<and>
   progress_open_now 7
     [\<lparr>ticket_sid = 1, project_sid = 7, ticket_no = ''T-1'', ticket_name = ''printer'',
       ticket_type = None, ticket_status = Some ''closed - verified'',
       ticket_priority = Some ''p1'', status = 1, create_dt = None, update_dt = None\<rparr>] = 1"
proof -
  define r where "r = \<lparr>ticket_sid = 1, project_sid = 7, ticket_no = ''T-1'',
       ticket_name = ''printer'', ticket_type = None, ticket_status = Some ''closed - verified'',
       ticket_priority = Some ''p1'', status = 1, create_dt = None, update_dt = None\<rparr>"
  have k: "''closed'' \<in> set DONE_KEYWORDS_LOWER"
    "str_contains (str_lower ''closed - verified'') ''closed''"
    by code_simp+
  have n: "str_lower ''closed - verified'' \<notin> set DONE_KEYWORDS_LOWER" by code_simp
  have h: "status r = 1" "project_sid r = 7" "ticket_status r = Some ''closed - verified''"
    by (simp_all add: r_def)
  have e: "progress_open_now 7 ([] @ []) = 0" by (simp add: progress_open_now_def)
  from open_now_exact_match [OF h k, of "[]" "[]"] k n e show ?thesis
    by (simp add: r_def)
qed

section \<open>Durations, rounding and the ticket sample\<close>

text \<open>
  \<^verbatim>\<open>(a - b).total_seconds()\<close> is the exact difference of two datetimes in seconds.
  Python floats are modelled as exact rationals. \<open>py_round x nd\<close> is \<^verbatim>\<open>round(x, nd)\<close>,
  rounding the exact value to \<open>nd\<close> decimals, a tie to the even neighbour.
\<close>

definition dt_micros :: "datetime \<Rightarrow> int" where
  "dt_micros t =
     toordinal (dt_date t) * 86400000000 +
     ((hour t * 60 + minute t) * 60 + second t) * 1000000 + microsecond t"

definition total_seconds :: "datetime \<Rightarrow> datetime \<Rightarrow> rat" where
  "total_seconds a b = of_int (dt_micros a - dt_micros b) / 1000000"

definition half_even :: "rat \<Rightarrow> int" where
  "half_even x =
     (let f = \<lfloor>x\<rfloor>; d = x - of_int f
      in if d < 1 / 2 then f else if 1 / 2 < d then f + 1 else if even f then f else f + 1)"

definition py_round :: "rat \<Rightarrow> nat \<Rightarrow> rat" where
  "py_round x nd = of_int (half_even (x * 10 ^ nd)) / 10 ^ nd"

text \<open>
  The \<^verbatim>\<open>params\<close> dictionary of the SLA reports: the override parameters and the keys
  \<^verbatim>\<open>project_sid\<close>, \<^verbatim>\<open>date_from\<close>, \<^verbatim>\<open>date_to\<close>, \<^verbatim>\<open>interval\<close>.
  \<open>interval_of\<close> is \<^verbatim>\<open>params.get("interval") or "day"\<close>.
\<close>

record query_params = overrides +
  q_project_sid :: "int option"
  date_from :: datetime
  date_to :: datetime
  interval :: "string option"

definition interval_of :: "'a query_params_scheme \<Rightarrow> string" where
  "interval_of ps = (case interval ps of None \<Rightarrow> ''day'' | Some s \<Rightarrow> if s = [] then ''day'' else s)"

text \<open>
  The sample query of both SLA reports: rows with \<^verbatim>\<open>status == 1\<close>, created within
  \<^verbatim>\<open>[date_from, date_to]\<close>, of the project when \<^verbatim>\<open>project_sid\<close> is truthy, ordered by
  \<^verbatim>\<open>create_dt\<close>. A comparison with a \<^verbatim>\<open>NULL\<close> column selects nothing. The table is a
  list of rows; rows with equal sort keys keep the order of the table.
\<close>

definition project_match :: "int option \<Rightarrow> ticket \<Rightarrow> bool" where
  "project_match psid r =
     (case psid of None \<Rightarrow> True | Some p \<Rightarrow> if p = 0 then True else project_sid r = p)"

definition sql_between :: "datetime option \<Rightarrow> datetime \<Rightarrow> datetime \<Rightarrow> bool" where
  "sql_between col a b = (case col of None \<Rightarrow> False | Some c \<Rightarrow> dt_le a c \<and> dt_le c b)"

definition dt_sort_key :: "datetime option \<Rightarrow> int" where
  "dt_sort_key col = (case col of None \<Rightarrow> 0 | Some c \<Rightarrow> dt_micros c)"

definition sla_sample :: "'a query_params_scheme \<Rightarrow> ticket list \<Rightarrow> ticket list" where
  "sla_sample ps table =
     sort_key (\<lambda>r. dt_sort_key (create_dt r))
       (filter (\<lambda>r. status r = 1 \<and> sql_between (create_dt r) (date_from ps) (date_to ps) \<and>
                     project_match (q_project_sid ps) r) table)"

text \<open>
  An entry of the overdue sample lists. The formatted date strings of the source are
  kept as datetimes; \<open>s_status\<close> is present in the overdue report only.
\<close>

record sample =
  s_ticket_no :: string
  s_ticket_name :: string
  s_priority :: string
  s_status :: "string option"
  s_created_at :: "datetime option"
  s_resolved_at :: "datetime option"
  target_h :: int
  tat_h :: rat
  overdue_h :: rat

definition mk_sample :: "ticket \<Rightarrow> bool \<Rightarrow> datetime option \<Rightarrow> int \<Rightarrow> rat \<Rightarrow> sample" where
  "mk_sample r with_status resolved tgt hours =
     \<lparr>s_ticket_no = ticket_no r, s_ticket_name = ticket_name r,
      s_priority = (case ticket_priority r of None \<Rightarrow> [] | Some p \<Rightarrow> p),
      s_status = (if with_status then Some (case ticket_status r of None \<Rightarrow> [] | Some s \<Rightarrow> s)
                  else None),
      s_created_at = create_dt r, s_resolved_at = resolved,
      target_h = tgt, tat_h = py_round hours 2, overdue_h = py_round (hours - of_int tgt) 2\<rparr>"

text \<open>
  The pieces of the loop bodies: the priority label (\<^verbatim>\<open>_normalize_priority(...) or\<close> the
  label for an unset priority, three CJK characters written as UTF-8 bytes),
  \<^verbatim>\<open>max(0.0, (t - create_dt).total_seconds()/3600.0) if create_dt else 0.0\<close>
  (\<open>hours_since\<close>), the test for a closed ticket
  (\<^verbatim>\<open>_is_done(r.ticket_status) and r.update_dt\<close>), \<^verbatim>\<open>d[k] = d.get(k, 0) + 1\<close>
  (\<open>dict_incr\<close>), the dictionary from bucket start to series index (\<open>bucket_index\<close>)
  and \<^verbatim>\<open>if bucket in idx: series[idx[bucket]] += 1\<close> (\<open>series_incr\<close>).
\<close>

definition UNSET_LABEL :: string where
  "UNSET_LABEL = [CHR 0xE6, CHR 0x9C, CHR 0xAA, CHR 0xE8, CHR 0xA8, CHR 0xAD, CHR 0xE5, CHR 0xAE, CHR 0x9A]"

definition priority_label :: "string option \<Rightarrow> string" where
  "priority_label p = (let n = normalize_priority p in if n = [] then UNSET_LABEL else n)"

definition hours_since :: "datetime \<Rightarrow> datetime option \<Rightarrow> rat" where
  "hours_since t c =
     (case c of None \<Rightarrow> 0 | Some c' \<Rightarrow> max 0 (total_seconds t c' / 3600))"

definition is_closed :: "ticket \<Rightarrow> bool" where
  "is_closed r = (is_done (ticket_status r) \<and> update_dt r \<noteq> None)"

definition tat_hours :: "ticket \<Rightarrow> rat" where
  "tat_hours r = hours_since (the (update_dt r)) (create_dt r)"

definition dict_incr :: "(string \<rightharpoonup> int) \<Rightarrow> string \<Rightarrow> (string \<rightharpoonup> int)" where
  "dict_incr m k = m(k \<mapsto> (case m k of None \<Rightarrow> 0 | Some v \<Rightarrow> v) + 1)"

definition dict_get0 :: "(string \<rightharpoonup> int) \<Rightarrow> string \<Rightarrow> int" where
  "dict_get0 m k = (case m k of None \<Rightarrow> 0 | Some v \<Rightarrow> v)"

definition bucket_index :: "date list \<Rightarrow> (date \<rightharpoonup> nat)" where
  "bucket_index bs = foldl (\<lambda>m ib. m(snd ib \<mapsto> fst ib)) Map.empty (zip [0..<length bs] bs)"

definition series_incr :: "(date \<rightharpoonup> nat) \<Rightarrow> date \<Rightarrow> int list \<Rightarrow> int list" where
  "series_incr idx b xs = (case idx b of None \<Rightarrow> xs | Some i \<Rightarrow> xs[i := xs ! i + 1])"

definition add_key :: "string \<Rightarrow> string list \<Rightarrow> string list" where
  "add_key pr ks = (if pr \<in> set ks then ks else ks @ [pr])"

text \<open>A \<^verbatim>\<open>for\<close> loop whose body may raise: the first exception ends the loop.\<close>

fun fold_err :: "('s \<Rightarrow> 'a \<Rightarrow> py_error + 's) \<Rightarrow> 's \<Rightarrow> 'a list \<Rightarrow> py_error + 's" where
  "fold_err f s [] = Inr s"
| "fold_err f s (x # xs) = (case f s x of Inl e \<Rightarrow> Inl e | Inr s' \<Rightarrow> fold_err f s' xs)"

section \<open>The SLA achievement report\<close>

text \<open>
  \<^verbatim>\<open>_query_sla_achievement\<close> of \<^verbatim>\<open>reports_sla.py\<close>. \<open>ach_state\<close> holds the variables
  the loop over the sample updates, \<open>ach_step\<close> is one round of the loop, and
  \<open>ach_result_of\<close> builds the returned payload. The wall clock \<^verbatim>\<open>datetime.utcnow()\<close>
  is the argument \<open>now\<close>. Left out of the payload: the label strings, the palette, the
  pie (which repeats two KPIs) and the echo of the rules.
\<close>

record ach_state =
  pr_keys :: "string list"
  per_pr_ach :: "string \<rightharpoonup> int"
  per_pr_bre :: "string \<rightharpoonup> int"
  closed_ach_series :: "int list"
  closed_bre_series :: "int list"
  closed :: int
  achieved_closed :: int
  breached_closed :: int
  open_cnt :: int
  open_within :: int
  open_breach :: int
  samples :: "sample list"

definition ach_init :: "nat \<Rightarrow> ach_state" where
  "ach_init n =
     \<lparr>pr_keys = [], per_pr_ach = Map.empty, per_pr_bre = Map.empty,
      closed_ach_series = replicate n 0, closed_bre_series = replicate n 0,
      closed = 0, achieved_closed = 0, breached_closed = 0,
      open_cnt = 0, open_within = 0, open_breach = 0, samples = []\<rparr>"

definition ach_step ::
  "rules \<Rightarrow> string \<Rightarrow> (date \<rightharpoonup> nat) \<Rightarrow> datetime \<Rightarrow> ach_state \<Rightarrow> ticket \<Rightarrow> py_error + ach_state" where
  "ach_step rs iv idx now st0 r =
     (let pr = priority_label (ticket_priority r);
          st = st0\<lparr>pr_keys := add_key pr (pr_keys st0)\<rparr>
      in case target_hours (ticket_priority r) rs of
           Inl e \<Rightarrow> Inl e
         | Inr tgt \<Rightarrow>
             if is_closed r then
               (let tat = tat_hours r in
                case bucket_key (the (update_dt r)) iv of
                  Inl e \<Rightarrow> Inl e
                | Inr bucket \<Rightarrow>
                    if tat \<le> of_int tgt then
                      Inr (st\<lparr>closed := closed st + 1,
                              achieved_closed := achieved_closed st + 1,
                              closed_ach_series := series_incr idx bucket (closed_ach_series st),
                              per_pr_ach := dict_incr (per_pr_ach st) pr\<rparr>)
                    else
                      Inr (st\<lparr>closed := closed st + 1,
                              breached_closed := breached_closed st + 1,
                              closed_bre_series := series_incr idx bucket (closed_bre_series st),
                              per_pr_bre := dict_incr (per_pr_bre st) pr,
                              samples := samples st @ [mk_sample r False (update_dt r) tgt tat]\<rparr>))
             else
               (let age = hours_since now (create_dt r) in
                if age \<le> of_int tgt then
                  Inr (st\<lparr>open_cnt := open_cnt st + 1, open_within := open_within st + 1\<rparr>)
                else
                  Inr (st\<lparr>open_cnt := open_cnt st + 1, open_breach := open_breach st + 1,
                          samples := samples st @ [mk_sample r False None tgt age]\<rparr>)))"

record ach_kpi =
  kpi_total :: int
  kpi_closed :: int
  kpi_open :: int
  kpi_achieved_closed :: int
  kpi_breached_closed :: int
  kpi_achieve_rate_closed :: rat
  kpi_achieved_all_now :: int
  kpi_achieve_rate_all_now :: rat
  kpi_open_within_sla :: int
  kpi_open_breach :: int

record ach_result =
  kpi :: ach_kpi
  bar_labels :: "string list"
  bar_achieved :: "int list"
  bar_breached :: "int list"
  trend_closed_achieved :: "int list"
  trend_closed_breached :: "int list"
  trend_rate :: "rat list"
  breached_samples :: "sample list"

definition top_samples :: "sample list \<Rightarrow> sample list" where
  "top_samples ss = take 50 (sort_key (\<lambda>s. - overdue_h s) ss)"

definition percent :: "int \<Rightarrow> int \<Rightarrow> rat" where
  "percent a c = (if c \<noteq> 0 then py_round (of_int a / of_int c * 100) 1 else 0)"

definition ach_result_of :: "int \<Rightarrow> ach_state \<Rightarrow> ach_result" where
  "ach_result_of n_total st =
     (let keys = sort_key (\<lambda>pr. - (dict_get0 (per_pr_ach st) pr + dict_get0 (per_pr_bre st) pr))
                   (pr_keys st)
      in \<lparr>kpi = \<lparr>kpi_total = n_total, kpi_closed = closed st, kpi_open = open_cnt st,
                 kpi_achieved_closed = achieved_closed st,
                 kpi_breached_closed = breached_closed st,
                 kpi_achieve_rate_closed = percent (achieved_closed st) (closed st),
                 kpi_achieved_all_now = achieved_closed st + open_within st,
                 kpi_achieve_rate_all_now = percent (achieved_closed st + open_within st) n_total,
                 kpi_open_within_sla = open_within st, kpi_open_breach = open_breach st\<rparr>,
           bar_labels = keys,
           bar_achieved = map (dict_get0 (per_pr_ach st)) keys,
           bar_breached = map (dict_get0 (per_pr_bre st)) keys,
           trend_closed_achieved = closed_ach_series st,
           trend_closed_breached = closed_bre_series st,
           trend_rate = map (\<lambda>ab. percent (fst ab) (fst ab + snd ab))
                          (zip (closed_ach_series st) (closed_bre_series st)),
           breached_samples = top_samples (samples st)\<rparr>)"

definition query_sla_achievement ::
  "'a query_params_scheme \<Rightarrow> ticket list \<Rightarrow> datetime \<Rightarrow> py_error + ach_result" where
  "query_sla_achievement ps table now =
     (let iv = interval_of ps;
          rs = compose_rules_from_params ps;
          rows = sla_sample ps table
      in case iter_buckets (date_from ps) (date_to ps) iv of
           Inl e \<Rightarrow> Inl e
         | Inr bucket_starts \<Rightarrow>
             (case fold_err (ach_step rs iv (bucket_index bucket_starts) now)
                     (ach_init (length bucket_starts)) rows of
                Inl e \<Rightarrow> Inl e
              | Inr st \<Rightarrow> Inr (ach_result_of (int (length rows)) st)))"

section \<open>The overdue report\<close>

text \<open>
  \<^verbatim>\<open>_query_overdue\<close> of \<^verbatim>\<open>reports_sla_overdue.py\<close>, in the same way. Only breached
  tickets change the state; an open breach is put into the bucket of \<^verbatim>\<open>create_dt\<close>.
\<close>

record ov_state =
  pr_list :: "string list"
  per_pr_open :: "string \<rightharpoonup> int"
  per_pr_closed :: "string \<rightharpoonup> int"
  trend_open_bre :: "int list"
  trend_closed_bre :: "int list"
  overdue_open :: int
  overdue_closed :: int
  ov_samples :: "sample list"

definition ov_init :: "nat \<Rightarrow> ov_state" where
  "ov_init n =
     \<lparr>pr_list = [], per_pr_open = Map.empty, per_pr_closed = Map.empty,
      trend_open_bre = replicate n 0, trend_closed_bre = replicate n 0,
      overdue_open = 0, overdue_closed = 0, ov_samples = []\<rparr>"

definition ov_step ::
  "rules \<Rightarrow> string \<Rightarrow> (date \<rightharpoonup> nat) \<Rightarrow> datetime \<Rightarrow> ov_state \<Rightarrow> ticket \<Rightarrow> py_error + ov_state" where
  "ov_step rs iv idx now st0 r =
     (case target_hours (ticket_priority r) rs of
        Inl e \<Rightarrow> Inl e
      | Inr tgt_h \<Rightarrow>
          (let pr = priority_label (ticket_priority r);
               st = st0\<lparr>pr_list := add_key pr (pr_list st0)\<rparr>
           in if is_closed r then
                (let tat = tat_hours r in
                 if of_int tgt_h < tat then
                   (case bucket_key (the (update_dt r)) iv of
                      Inl e \<Rightarrow> Inl e
                    | Inr b \<Rightarrow>
                        Inr (st\<lparr>overdue_closed := overdue_closed st + 1,
                                per_pr_closed := dict_incr (per_pr_closed st) pr,
                                trend_closed_bre := series_incr idx b (trend_closed_bre st),
                                ov_samples := ov_samples st @ [mk_sample r True (update_dt r) tgt_h tat]\<rparr>))
                 else Inr st)
              else
                (let age = hours_since now (create_dt r) in
                 if of_int tgt_h < age then
                   (case create_dt r of
                      None \<Rightarrow> Inl AttributeError
                    | Some c \<Rightarrow>
                        (case bucket_key c iv of
                           Inl e \<Rightarrow> Inl e
                         | Inr b \<Rightarrow>
                             Inr (st\<lparr>overdue_open := overdue_open st + 1,
                                     per_pr_open := dict_incr (per_pr_open st) pr,
                                     trend_open_bre := series_incr idx b (trend_open_bre st),
                                     ov_samples := ov_samples st @ [mk_sample r True None tgt_h age]\<rparr>)))
                 else Inr st)))"

record ov_result =
  kpi_overdue_total :: int
  kpi_overdue_open :: int
  kpi_overdue_closed :: int
  ov_bar_labels :: "string list"
  ov_bar_open_breached :: "int list"
  ov_bar_closed_breached :: "int list"
  ov_trend_open_breached :: "int list"
  ov_trend_closed_breached :: "int list"
  ov_trend_total :: "int list"
  top_overdue_samples :: "sample list"

definition ov_result_of :: "ov_state \<Rightarrow> ov_result" where
  "ov_result_of st =
     (let keys = sort_key (\<lambda>pr. - (dict_get0 (per_pr_open st) pr + dict_get0 (per_pr_closed st) pr))
                   (pr_list st)
      in \<lparr>kpi_overdue_total = overdue_open st + overdue_closed st,
           kpi_overdue_open = overdue_open st,
           kpi_overdue_closed = overdue_closed st,
           ov_bar_labels = keys,
           ov_bar_open_breached = map (dict_get0 (per_pr_open st)) keys,
           ov_bar_closed_breached = map (dict_get0 (per_pr_closed st)) keys,
           ov_trend_open_breached = trend_open_bre st,
           ov_trend_closed_breached = trend_closed_bre st,
           ov_trend_total = map (\<lambda>ab. fst ab + snd ab) (zip (trend_open_bre st) (trend_closed_bre st)),
           top_overdue_samples = top_samples (ov_samples st)\<rparr>)"

definition query_overdue ::
  "'a query_params_scheme \<Rightarrow> ticket list \<Rightarrow> datetime \<Rightarrow> py_error + ov_result" where
  "query_overdue ps table now =
     (let iv = interval_of ps;
          rs = compose_rules_from_params ps;
          rows = sla_sample ps table
      in case iter_buckets (date_from ps) (date_to ps) iv of
           Inl e \<Rightarrow> Inl e
         | Inr buckets \<Rightarrow>
             (case fold_err (ov_step rs iv (bucket_index buckets) now)
                     (ov_init (length buckets)) rows of
                Inl e \<Rightarrow> Inl e
              | Inr st \<Rightarrow> Inr (ov_result_of st)))"

section \<open>The efficiency report\<close>

text \<open>
  \<^verbatim>\<open>_query_efficiency\<close> of \<^verbatim>\<open>reports_ticket.py\<close>. \<open>BUCKETS\<close> is \<^verbatim>\<open>_BUCKETS\<close> without
  the labels, \<open>None\<close> standing for the infinite upper bound. The loop over the tickets
  updated in the period skips a ticket that is not done, that lacks a timestamp or
  whose duration is negative (\<^verbatim>\<open>if sec < 0: continue\<close>); open tickets with a negative
  age are left out as well (\<^verbatim>\<open>if age >= 0\<close>).
\<close>

definition BUCKETS :: "(int \<times> int option) list" where
  "BUCKETS =
     [(0, Some (60 * 60)), (60 * 60, Some (4 * 60 * 60)), (4 * 60 * 60, Some (8 * 60 * 60)),
      (8 * 60 * 60, Some (24 * 60 * 60)), (24 * 60 * 60, Some (3 * 24 * 60 * 60)),
      (3 * 24 * 60 * 60, Some (7 * 24 * 60 * 60)), (7 * 24 * 60 * 60, None)]"

definition in_bucket :: "rat \<Rightarrow> int \<times> int option \<Rightarrow> bool" where
  "in_bucket sec b =
     (of_int (fst b) \<le> sec \<and> (case snd b of None \<Rightarrow> True | Some hi \<Rightarrow> sec < of_int hi))"

fun first_bucket :: "rat \<Rightarrow> (int \<times> int option) list \<Rightarrow> nat \<Rightarrow> nat option" where
  "first_bucket sec [] i = None"
| "first_bucket sec (b # bs) i = (if in_bucket sec b then Some i else first_bucket sec bs (Suc i))"

record eff_sample =
  e_ticket_sid :: int
  e_ticket_no :: string
  e_ticket_name :: string
  e_project_sid :: int
  e_created_at :: datetime
  e_resolved_at :: datetime
  resolved_hours :: rat

record eff_state =
  done_secs :: "rat list"
  bucket_counts :: "int list"
  eff_samples :: "eff_sample list"

definition eff_step :: "eff_state \<Rightarrow> ticket \<Rightarrow> eff_state" where
  "eff_step st row =
     (if \<not> is_done (ticket_status row) then st
      else case (update_dt row, create_dt row) of
             (Some u, Some c) \<Rightarrow>
               (let sec = total_seconds u c in
                if sec < 0 then st
                else st\<lparr>done_secs := done_secs st @ [sec],
                        bucket_counts :=
                          (case first_bucket sec BUCKETS 0 of
                             None \<Rightarrow> bucket_counts st
                           | Some i \<Rightarrow> (bucket_counts st)[i := bucket_counts st ! i + 1]),
                        eff_samples :=
                          (if length (eff_samples st) < 50
                             then eff_samples st @
                               [\<lparr>e_ticket_sid = ticket_sid row, e_ticket_no = ticket_no row,
                                 e_ticket_name = ticket_name row, e_project_sid = project_sid row,
                                 e_created_at = c, e_resolved_at = u,
                                 resolved_hours = py_round (sec / 3600) 2\<rparr>]
                           else eff_samples st)\<rparr>)
           | _ \<Rightarrow> st)"

definition eff_done_rows :: "'a query_params_scheme \<Rightarrow> ticket list \<Rightarrow> ticket list" where
  "eff_done_rows ps table =
     take 2000 (sort_key (\<lambda>r. - dt_sort_key (update_dt r))
       (filter (\<lambda>r. status r = 1 \<and> sql_between (update_dt r) (date_from ps) (date_to ps) \<and>
                     project_match (q_project_sid ps) r) table))"

definition eff_open_secs :: "'a query_params_scheme \<Rightarrow> ticket list \<Rightarrow> datetime \<Rightarrow> rat list" where
  "eff_open_secs ps table now =
     filter (\<lambda>age. 0 \<le> age)
       (map (\<lambda>r. total_seconds now (the (create_dt r)))
          (filter (\<lambda>r. \<not> is_done (ticket_status r))
             (filter (\<lambda>r. status r = 1 \<and> sql_between (create_dt r) (date_from ps) (date_to ps) \<and>
                           project_match (q_project_sid ps) r) table)))"

record eff_result =
  done_count :: int
  avg_hours :: rat
  median_hours :: rat
  p90_hours :: rat
  open_count :: int
  open_avg_age_hours :: rat
  series_data :: "int list"
  bucket_pct :: "rat list"
  eff_top_samples :: "eff_sample list"

definition mean_hours :: "rat list \<Rightarrow> rat" where
  "mean_hours secs =
     (if secs = [] then 0 else py_round ((sum_list secs / of_nat (length secs)) / 3600) 2)"

definition pct_hours :: "rat list \<Rightarrow> rat \<Rightarrow> py_error + rat" where
  "pct_hours secs p =
     (if secs = [] then Inr 0
      else case percentile secs p of Inl e \<Rightarrow> Inl e | Inr v \<Rightarrow> Inr (py_round (v / 3600) 2))"

definition query_efficiency ::
  "'a query_params_scheme \<Rightarrow> ticket list \<Rightarrow> datetime \<Rightarrow> py_error + eff_result" where
  "query_efficiency ps table now =
     (let st = foldl eff_step
                 \<lparr>done_secs = [], bucket_counts = replicate (length BUCKETS) 0, eff_samples = []\<rparr>
                 (eff_done_rows ps table);
          n_done = int (length (done_secs st));
          open_secs = eff_open_secs ps table now;
          total_for_pct = (if n_done \<noteq> 0 then n_done else 1)
      in case pct_hours (done_secs st) (1 / 2) of
           Inl e \<Rightarrow> Inl e
         | Inr med \<Rightarrow>
             (case pct_hours (done_secs st) (9 / 10) of
                Inl e \<Rightarrow> Inl e
              | Inr p90 \<Rightarrow>
                  Inr \<lparr>done_count = n_done, avg_hours = mean_hours (done_secs st),
                       median_hours = med, p90_hours = p90,
                       open_count = int (length open_secs),
                       open_avg_age_hours = mean_hours open_secs,
                       series_data = bucket_counts st,
                       bucket_pct = map (\<lambda>c. py_round (of_int c / of_int total_for_pct * 100) 2)
                                      (bucket_counts st),
                       eff_top_samples = eff_samples st\<rparr>))"

section \<open>Closed items of the project-progress report\<close>

text \<open>
  The list \<^verbatim>\<open>closed_items\<close> of \<^verbatim>\<open>_query_project_progress\<close>: the latest 20 tickets of
  the project updated in the period, those that are done and have both timestamps, each
  with \<^verbatim>\<open>lead_hours = round((update_dt - create_dt).total_seconds()/3600.0, 2)\<close>.
\<close>

record closed_item =
  c_ticket_sid :: int
  c_created_at :: datetime
  c_closed_at :: datetime
  lead_hours :: rat

definition progress_closed_rows :: "int \<Rightarrow> datetime \<Rightarrow> datetime \<Rightarrow> ticket list \<Rightarrow> ticket list" where
  "progress_closed_rows psid d_from d_to table =
     take 20 (sort_key (\<lambda>r. - dt_sort_key (update_dt r))
       (filter (\<lambda>r. status r = 1 \<and> project_sid r = psid \<and> sql_between (update_dt r) d_from d_to)
          table))"

definition progress_closed_items :: "int \<Rightarrow> datetime \<Rightarrow> datetime \<Rightarrow> ticket list \<Rightarrow> closed_item list" where
  "progress_closed_items psid d_from d_to table =
     concat (map (\<lambda>r.
        if \<not> is_done (ticket_status r) then []
        else case (create_dt r, update_dt r) of
               (Some c, Some u) \<Rightarrow>
                 [\<lparr>c_ticket_sid = ticket_sid r, c_created_at = c, c_closed_at = u,
                   lead_hours = py_round (total_seconds u c / 3600) 2\<rparr>]
             | _ \<Rightarrow> [])
       (progress_closed_rows psid d_from d_to table))"

text \<open>\<open>tk\<close> and \<open>qp\<close> write a ticket of project 7 and a parameter dictionary down.\<close>

definition tk :: "int \<Rightarrow> string \<Rightarrow> string \<Rightarrow> datetime \<Rightarrow> datetime option \<Rightarrow> ticket" where
  "tk sid st pr c u =
     \<lparr>ticket_sid = sid, project_sid = 7, ticket_no = ''T'', ticket_name = ''N'', ticket_type = None,
      ticket_status = Some st, ticket_priority = Some pr, status = 1, create_dt = Some c,
      update_dt = u\<rparr>"

definition qp :: "datetime \<Rightarrow> datetime \<Rightarrow> string \<Rightarrow> query_params" where
  "qp a b iv = \<lparr>p1h = None, p2h = None, p3h = None, p4h = None, defh = None,
     q_project_sid = Some 7, date_from = a, date_to = b, interval = Some iv\<rparr>"

section \<open>Properties of the reports\<close>

lemma fold_err_invariant:
  assumes "P [] s0"
    and "\<And>xs s x s'. P xs s \<Longrightarrow> f s x = Inr s' \<Longrightarrow> P (xs @ [x]) s'"
    and "fold_err f s0 rows = Inr s'"
  shows "P rows s'"
proof -
  have "P pre s \<Longrightarrow> fold_err f s xs = Inr s' \<Longrightarrow> P (pre @ xs) s'" for pre s xs
  proof (induction xs arbitrary: pre s)
    case Nil
    then show ?case by simp
  next
    case (Cons x xs)
    then obtain s1 where s1: "f s x = Inr s1" "fold_err f s1 xs = Inr s'"
      by (auto split: sum.splits)
    from assms(2) [OF Cons.prems(1) s1(1)] have "P (pre @ [x]) s1" .
    from Cons.IH [OF this s1(2)] show ?case by simp
  qed
  from this [of "[]" s0 rows] assms(1,3) show ?thesis by simp
qed

text \<open>
  \<open>within_target rs r\<close>: the turnaround hours of the closed ticket \<open>r\<close> are at most its
  resolved target hours.
\<close>

definition within_target :: "rules \<Rightarrow> ticket \<Rightarrow> bool" where
  "within_target rs r =
     (case target_hours (ticket_priority r) rs of
        Inl e \<Rightarrow> False
      | Inr tgt \<Rightarrow> tat_hours r \<le> of_int tgt)"

definition ach_counts :: "rules \<Rightarrow> ticket list \<Rightarrow> ach_state \<Rightarrow> bool" where
  "ach_counts rs rows st =
     (closed st = int (length (filter is_closed rows)) \<and>
      achieved_closed st = int (length (filter (\<lambda>r. is_closed r \<and> within_target rs r) rows)) \<and>
      breached_closed st = int (length (filter (\<lambda>r. is_closed r \<and> \<not> within_target rs r) rows)))"

lemma ach_step_counts:
  assumes "ach_counts rs xs st" "ach_step rs iv idx now st x = Inr st'"
  shows "ach_counts rs (xs @ [x]) st'"
proof -
  obtain tgt where tgt: "target_hours (ticket_priority x) rs = Inr tgt"
    using assms(2) by (cases "target_hours (ticket_priority x) rs") (simp_all add: ach_step_def Let_def)
  show ?thesis
  proof (cases "is_closed x")
    case True
    then obtain b where b: "bucket_key (the (update_dt x)) iv = Inr b"
      using assms(2) tgt
      by (cases "bucket_key (the (update_dt x)) iv") (simp_all add: ach_step_def Let_def)
    show ?thesis
    proof (cases "tat_hours x \<le> of_int tgt")
      case le: True
      then have w: "within_target rs x" using tgt by (simp add: within_target_def)
      have "st' = st\<lparr>pr_keys := add_key (priority_label (ticket_priority x)) (pr_keys st),
                      closed := closed st + 1, achieved_closed := achieved_closed st + 1,
                      closed_ach_series := series_incr idx b (closed_ach_series st),
                      per_pr_ach := dict_incr (per_pr_ach st) (priority_label (ticket_priority x))\<rparr>"
        using assms(2) tgt True b le by (simp add: ach_step_def Let_def)
      then show ?thesis using assms(1) True w by (simp add: ach_counts_def)
    next
      case gt: False
      then have w: "\<not> within_target rs x" using tgt by (simp add: within_target_def)
      have "closed st' = closed st + 1 \<and> achieved_closed st' = achieved_closed st \<and>
            breached_closed st' = breached_closed st + 1"
        using assms(2) tgt True b gt by (auto simp: ach_step_def Let_def)
      then show ?thesis using assms(1) True w by (simp add: ach_counts_def)
    qed
  next
    case False
    have "closed st' = closed st \<and> achieved_closed st' = achieved_closed st \<and>
          breached_closed st' = breached_closed st"
      using assms(2) tgt False by (auto simp: ach_step_def Let_def split: if_splits)
    then show ?thesis using assms(1) False by (simp add: ach_counts_def)
  qed
qed

lemma ach_fold_counts:
  assumes "fold_err (ach_step rs iv idx now) (ach_init n) rows = Inr st"
  shows "ach_counts rs rows st"
proof (rule fold_err_invariant [where P = "ach_counts rs", OF _ _ assms])
  show "ach_counts rs [] (ach_init n)" by (simp add: ach_counts_def ach_init_def)
next
  fix xs s x s'
  assume "ach_counts rs xs s" "ach_step rs iv idx now s x = Inr s'"
  then show "ach_counts rs (xs @ [x]) s'" by (rule ach_step_counts)
qed

lemma filter_split_length:
  "length (filter (\<lambda>r. P r \<and> Q r) xs) + length (filter (\<lambda>r. P r \<and> \<not> Q r) xs)
     = length (filter P xs)"
  by (induction xs) auto

lemma query_sla_achievement_Inr:
  assumes "query_sla_achievement ps table now = Inr res"
  shows "\<exists>bs st. iter_buckets (date_from ps) (date_to ps) (interval_of ps) = Inr bs \<and>
           fold_err (ach_step (compose_rules_from_params ps) (interval_of ps) (bucket_index bs) now)
             (ach_init (length bs)) (sla_sample ps table) = Inr st \<and>
           res = ach_result_of (int (length (sla_sample ps table))) st"
  using assms by (auto simp: query_sla_achievement_def Let_def split: sum.splits)

text \<open>
  Claim C2. On every run of \<^verbatim>\<open>_query_sla_achievement\<close> that returns, the KPIs satisfy
  \<open>achieved_closed + breached_closed = closed\<close>: \<open>closed\<close> counts the tickets of the sample
  that are done and have \<^verbatim>\<open>update_dt\<close>, \<open>achieved_closed\<close> those of them whose turnaround
  hours are at most the target hours, \<open>breached_closed\<close> the others.
\<close>

theorem achieved_plus_breached:
  assumes "query_sla_achievement ps table now = Inr res"
  shows "kpi_achieved_closed (kpi res) + kpi_breached_closed (kpi res) = kpi_closed (kpi res) \<and>
         kpi_closed (kpi res) = int (length (filter is_closed (sla_sample ps table))) \<and>
         kpi_achieved_closed (kpi res) =
           int (length (filter (\<lambda>r. is_closed r \<and> within_target (compose_rules_from_params ps) r)
                  (sla_sample ps table))) \<and>
         kpi_breached_closed (kpi res) =
           int (length (filter (\<lambda>r. is_closed r \<and> \<not> within_target (compose_rules_from_params ps) r)
                  (sla_sample ps table)))"
proof -
  from query_sla_achievement_Inr [OF assms] obtain bs st where
    st: "fold_err (ach_step (compose_rules_from_params ps) (interval_of ps) (bucket_index bs) now)
             (ach_init (length bs)) (sla_sample ps table) = Inr st"
    and res: "res = ach_result_of (int (length (sla_sample ps table))) st"
    by blast
  have c: "ach_counts (compose_rules_from_params ps) (sla_sample ps table) st"
    by (rule ach_fold_counts [OF st])
  have k: "kpi_closed (kpi res) = closed st" "kpi_achieved_closed (kpi res) = achieved_closed st"
    "kpi_breached_closed (kpi res) = breached_closed st"
    by (simp_all add: res ach_result_of_def Let_def)
  show ?thesis
    using c filter_split_length [of is_closed "within_target (compose_rules_from_params ps)"
        "sla_sample ps table"]
    unfolding k ach_counts_def by simp
qed

definition descending_by_overdue :: "sample list \<Rightarrow> bool" where
  "descending_by_overdue ss = sorted_wrt (\<lambda>a b. overdue_h b \<le> overdue_h a) ss"

definition strictly_descending_by_overdue :: "sample list \<Rightarrow> bool" where
  "strictly_descending_by_overdue ss = sorted_wrt (\<lambda>a b. overdue_h b < overdue_h a) ss"

text \<open>
  \<open>nonneg_sample\<close>: no hours field of a sample is negative. \<open>descending_by_overdue\<close>:
  each sample's \<^verbatim>\<open>overdue_h\<close> is at most that of every sample before it;
  \<open>strictly_descending_by_overdue\<close>: it is smaller.
\<close>

definition nonneg_sample :: "sample \<Rightarrow> bool" where
  "nonneg_sample s = (0 \<le> target_h s \<and> 0 \<le> tat_h s \<and> 0 \<le> overdue_h s)"

lemma top_samples_sorted:
  "sorted_wrt (\<lambda>a b. overdue_h b \<le> overdue_h a) (top_samples ss)"
proof -
  have "sorted (map (\<lambda>s. - overdue_h s) (sort_key (\<lambda>s. - overdue_h s) ss))"
    by (rule sorted_sort_key)
  then have "sorted_wrt (\<lambda>a b. - overdue_h a \<le> - overdue_h b) (sort_key (\<lambda>s. - overdue_h s) ss)"
    by (simp add: sorted_map)
  then have "sorted_wrt (\<lambda>a b. overdue_h b \<le> overdue_h a) (sort_key (\<lambda>s. - overdue_h s) ss)"
    by simp
  then show ?thesis unfolding top_samples_def by (rule sorted_wrt_take)
qed

lemma top_samples_length: "length (top_samples ss) \<le> 50"
  by (simp add: top_samples_def)

lemma top_samples_subset: "set (top_samples ss) \<subseteq> set ss"
  using set_take_subset [of 50 "sort_key (\<lambda>s. - overdue_h s) ss"] by (simp add: top_samples_def)

lemma query_overdue_Inr:
  assumes "query_overdue ps table now = Inr res"
  shows "\<exists>bs st. iter_buckets (date_from ps) (date_to ps) (interval_of ps) = Inr bs \<and>
           fold_err (ov_step (compose_rules_from_params ps) (interval_of ps) (bucket_index bs) now)
             (ov_init (length bs)) (sla_sample ps table) = Inr st \<and>
           res = ov_result_of st"
  using assms by (auto simp: query_overdue_def Let_def split: sum.splits)

text \<open>
  Claim C8, as the code has it. In the achievement report and in the overdue report the
  returned sample list is sorted by \<^verbatim>\<open>overdue_h\<close> in descending order, where samples
  with equal \<^verbatim>\<open>overdue_h\<close> may follow each other, and it has at most 50 entries.
\<close>

theorem samples_sorted_bounded:
  "(query_sla_achievement ps table now = Inr res \<longrightarrow>
      sorted_wrt (\<lambda>a b. overdue_h b \<le> overdue_h a) (breached_samples res) \<and>
      length (breached_samples res) \<le> 50) \<and>
   (query_overdue ps table now = Inr ores \<longrightarrow>
      sorted_wrt (\<lambda>a b. overdue_h b \<le> overdue_h a) (top_overdue_samples ores) \<and>
      length (top_overdue_samples ores) \<le> 50)"
proof (intro conjI impI)
  assume "query_sla_achievement ps table now = Inr res"
  from query_sla_achievement_Inr [OF this] obtain bs st where
    "res = ach_result_of (int (length (sla_sample ps table))) st" by blast
  then have r: "breached_samples res = top_samples (samples st)"
    by (simp add: ach_result_of_def Let_def)
  show "sorted_wrt (\<lambda>a b. overdue_h b \<le> overdue_h a) (breached_samples res)"
    unfolding r by (rule top_samples_sorted)
  show "length (breached_samples res) \<le> 50" unfolding r by (rule top_samples_length)
next
  assume "query_overdue ps table now = Inr ores"
  from query_overdue_Inr [OF this] obtain bs st where "ores = ov_result_of st" by blast
  then have r: "top_overdue_samples ores = top_samples (ov_samples st)"
    by (simp add: ov_result_of_def Let_def)
  show "sorted_wrt (\<lambda>a b. overdue_h b \<le> overdue_h a) (top_overdue_samples ores)"
    unfolding r by (rule top_samples_sorted)
  show "length (top_overdue_samples ores) \<le> 50" unfolding r by (rule top_samples_length)
qed

lemma half_even_nonneg: "0 \<le> x \<Longrightarrow> 0 \<le> half_even x"
proof -
  assume "0 \<le> x"
  then have "0 \<le> \<lfloor>x\<rfloor>" by simp
  then show ?thesis by (simp add: half_even_def Let_def)
qed

lemma py_round_nonneg: "0 \<le> x \<Longrightarrow> 0 \<le> py_round x nd"
proof -
  assume "0 \<le> x"
  then have "0 \<le> x * 10 ^ nd" by simp
  from half_even_nonneg [OF this] show ?thesis by (simp add: py_round_def)
qed

lemma target_hours_nonneg:
  assumes "rules_ok rs" "target_hours p rs = Inr h"
  shows "0 \<le> h"
proof -
  obtain k where "rules_get rs k = Inr h"
    using assms(2) by (auto simp: target_hours_def Let_def split: if_splits)
  then have "rs k = Some h" by (auto simp: rules_get_def split: option.splits)
  then show ?thesis using assms(1) by (auto simp: rules_ok_def)
qed

lemma hours_since_nonneg: "0 \<le> hours_since t c"
  by (simp add: hours_since_def split: option.splits)

lemma hours_since_clamp:
  "hours_since t (Some c) =
     (if total_seconds t c < 0 then 0 else total_seconds t c / 3600)"
  by (auto simp: hours_since_def max_def)

lemma mk_sample_nonneg:
  assumes "0 \<le> tgt" "of_int tgt \<le> hours"
  shows "nonneg_sample (mk_sample r b u tgt hours)"
proof -
  have "0 \<le> hours" using assms by (meson of_int_0_le_iff order_trans)
  then show ?thesis using assms
    by (simp add: nonneg_sample_def mk_sample_def py_round_nonneg)
qed

lemma ach_step_samples:
  assumes "rules_ok rs" "list_all nonneg_sample (samples st)"
    "ach_step rs iv idx now st x = Inr st'"
  shows "list_all nonneg_sample (samples st')"
proof -
  obtain tgt where tgt: "target_hours (ticket_priority x) rs = Inr tgt"
    using assms(3) by (cases "target_hours (ticket_priority x) rs") (simp_all add: ach_step_def Let_def)
  have t0: "0 \<le> tgt" by (rule target_hours_nonneg [OF assms(1) tgt])
  show ?thesis
  proof (cases "is_closed x")
    case True
    show ?thesis
    proof (cases "tat_hours x \<le> of_int tgt")
      case le: True
      then have "samples st' = samples st"
        using assms(3) tgt True by (auto simp: ach_step_def Let_def split: sum.splits)
      then show ?thesis using assms(2) by simp
    next
      case gt: False
      then have "samples st' = samples st @ [mk_sample x False (update_dt x) tgt (tat_hours x)]"
        using assms(3) tgt True by (auto simp: ach_step_def Let_def split: sum.splits)
      then show ?thesis using assms(2) mk_sample_nonneg [OF t0, of "tat_hours x"] gt by simp
    qed
  next
    case False
    show ?thesis
    proof (cases "hours_since now (create_dt x) \<le> of_int tgt")
      case le: True
      then have "samples st' = samples st"
        using assms(3) tgt False by (auto simp: ach_step_def Let_def)
      then show ?thesis using assms(2) by simp
    next
      case gt: False
      then have "samples st' =
          samples st @ [mk_sample x False None tgt (hours_since now (create_dt x))]"
        using assms(3) tgt False by (auto simp: ach_step_def Let_def)
      then show ?thesis
        using assms(2) mk_sample_nonneg [OF t0, of "hours_since now (create_dt x)"] gt by simp
    qed
  qed
qed

lemma ov_step_samples:
  assumes "rules_ok rs" "list_all nonneg_sample (ov_samples st)"
    "ov_step rs iv idx now st x = Inr st'"
  shows "list_all nonneg_sample (ov_samples st')"
proof -
  obtain tgt where tgt: "target_hours (ticket_priority x) rs = Inr tgt"
    using assms(3) by (cases "target_hours (ticket_priority x) rs") (simp_all add: ov_step_def)
  have t0: "0 \<le> tgt" by (rule target_hours_nonneg [OF assms(1) tgt])
  show ?thesis
  proof (cases "is_closed x")
    case True
    show ?thesis
    proof (cases "of_int tgt < tat_hours x")
      case gt: True
      then have "ov_samples st' =
          ov_samples st @ [mk_sample x True (update_dt x) tgt (tat_hours x)]"
        using assms(3) tgt True by (auto simp: ov_step_def Let_def split: sum.splits)
      then show ?thesis using assms(2) mk_sample_nonneg [OF t0, of "tat_hours x"] gt by simp
    next
      case le: False
      then have "ov_samples st' = ov_samples st"
        using assms(3) tgt True by (auto simp: ov_step_def Let_def)
      then show ?thesis using assms(2) by simp
    qed
  next
    case False
    show ?thesis
    proof (cases "of_int tgt < hours_since now (create_dt x)")
      case gt: True
      then have "ov_samples st' =
          ov_samples st @ [mk_sample x True None tgt (hours_since now (create_dt x))]"
        using assms(3) tgt False
        by (auto simp: ov_step_def Let_def split: sum.splits option.splits)
      then show ?thesis
        using assms(2) mk_sample_nonneg [OF t0, of "hours_since now (create_dt x)"] gt by simp
    next
      case le: False
      then have "ov_samples st' = ov_samples st"
        using assms(3) tgt False by (auto simp: ov_step_def Let_def)
      then show ?thesis using assms(2) by simp
    qed
  qed
qed

lemma ach_fold_samples:
  assumes "fold_err (ach_step (compose_rules_from_params ps) iv idx now) (ach_init n) rows = Inr st"
  shows "list_all nonneg_sample (samples st)"
proof (rule fold_err_invariant [where P = "\<lambda>xs s. list_all nonneg_sample (samples s)", OF _ _ assms])
  show "list_all nonneg_sample (samples (ach_init n))" by (simp add: ach_init_def)
next
  fix xs :: "ticket list" and s x s'
  assume "list_all nonneg_sample (samples s)"
    "ach_step (compose_rules_from_params ps) iv idx now s x = Inr s'"
  then show "list_all nonneg_sample (samples s')"
    by (rule ach_step_samples [OF rules_ok_compose])
qed

lemma ov_fold_samples:
  assumes "fold_err (ov_step (compose_rules_from_params ps) iv idx now) (ov_init n) rows = Inr st"
  shows "list_all nonneg_sample (ov_samples st)"
proof (rule fold_err_invariant [where P = "\<lambda>xs s. list_all nonneg_sample (ov_samples s)", OF _ _ assms])
  show "list_all nonneg_sample (ov_samples (ov_init n))" by (simp add: ov_init_def)
next
  fix xs :: "ticket list" and s x s'
  assume "list_all nonneg_sample (ov_samples s)"
    "ov_step (compose_rules_from_params ps) iv idx now s x = Inr s'"
  then show "list_all nonneg_sample (ov_samples s')"
    by (rule ov_step_samples [OF rules_ok_compose])
qed

lemma list_all_top_samples: "list_all P ss \<Longrightarrow> list_all P (top_samples ss)"
  using top_samples_subset [of ss] by (auto simp: list_all_iff)

text \<open>
  \<open>eff_counted r\<close>: the efficiency report takes the ticket \<open>r\<close> into its statistics; it is
  done, has both timestamps and a duration that is not negative.
\<close>

definition eff_counted :: "ticket \<Rightarrow> bool" where
  "eff_counted r =
     (is_done (ticket_status r) \<and>
      (case (update_dt r, create_dt r) of
         (Some u, Some c) \<Rightarrow> 0 \<le> total_seconds u c
       | _ \<Rightarrow> False))"

definition eff_ok :: "eff_state \<Rightarrow> bool" where
  "eff_ok st =
     (list_all (\<lambda>x. 0 \<le> x) (done_secs st) \<and>
      list_all (\<lambda>s. 0 \<le> resolved_hours s) (eff_samples st))"

lemma eff_step_counted:
  "eff_counted r \<Longrightarrow> length (done_secs (eff_step st r)) = Suc (length (done_secs st))"
  by (auto simp: eff_counted_def eff_step_def Let_def split: option.splits)

lemma eff_step_skipped: "\<not> eff_counted r \<Longrightarrow> eff_step st r = st"
  by (auto simp: eff_counted_def eff_step_def Let_def split: option.splits)

lemma eff_step_ok: "eff_ok st \<Longrightarrow> eff_ok (eff_step st r)"
proof (cases "eff_counted r")
  case False
  assume "eff_ok st"
  then show ?thesis using eff_step_skipped [OF False] by simp
next
  case True
  assume ok: "eff_ok st"
  from True obtain u c where uc: "update_dt r = Some u" "create_dt r = Some c"
    "0 \<le> total_seconds u c" "is_done (ticket_status r)"
    by (auto simp: eff_counted_def split: option.splits)
  have "0 \<le> py_round (total_seconds u c / 3600) 2"
    using uc(3) by (intro py_round_nonneg) simp
  then show ?thesis using ok uc
    by (simp add: eff_ok_def eff_step_def Let_def)
qed

lemma eff_fold:
  "eff_ok st \<Longrightarrow>
   eff_ok (foldl eff_step st rows) \<and>
   length (done_secs (foldl eff_step st rows)) =
     length (done_secs st) + length (filter eff_counted rows)"
proof (induction rows arbitrary: st)
  case Nil
  then show ?case by simp
next
  case (Cons r rows)
  from Cons.IH [OF eff_step_ok [OF Cons.prems, of r]] show ?case
    by (cases "eff_counted r") (simp_all add: eff_step_counted eff_step_skipped)
qed

lemma mean_hours_nonneg:
  assumes "list_all (\<lambda>x. 0 \<le> x) secs"
  shows "0 \<le> mean_hours secs"
proof -
  have "0 \<le> sum_list secs" using assms by (intro sum_list_nonneg) (simp add: list_all_iff)
  then have "0 \<le> (sum_list secs / of_nat (length secs)) / 3600" by simp
  from py_round_nonneg [OF this] show ?thesis by (simp add: mean_hours_def)
qed

lemma percentile_nonneg:
  assumes "list_all (\<lambda>x. 0 \<le> x) secs" "0 \<le> p" "p \<le> 1" "percentile secs p = Inr v"
  shows "0 \<le> v"
proof (cases "secs = []")
  case True
  then show ?thesis using assms(4) by (simp add: percentile_def)
next
  case False
  define s where "s = sort secs"
  define n where "n = int (length s)"
  define k where "k = (of_int (n - 1) * p :: rat)"
  have v: "v = percentile_spec secs p"
    using percentile_refines [OF assms(2,3), of secs] assms(4) by simp
  have n1: "1 \<le> n" using False by (cases secs) (auto simp: n_def s_def)
  have k0: "0 \<le> k" unfolding k_def using n1 assms(2) by (intro mult_nonneg_nonneg) auto
  have "k \<le> of_int (n - 1) * 1" unfolding k_def using n1 assms(3) by (intro mult_left_mono) auto
  then have kn: "k \<le> of_int (int (length s) - 1)" by (simp add: n_def)
  have f: "0 \<le> \<lfloor>k\<rfloor>" "\<lfloor>k\<rfloor> \<le> n - 1"
    using floor_in_range [OF k0, of n] kn by (simp_all add: n_def)
  then have "nat \<lfloor>k\<rfloor> < length s" unfolding n_def by linarith
  then have "s ! nat \<lfloor>k\<rfloor> \<in> set secs" using nth_mem [of "nat \<lfloor>k\<rfloor>" s] by (simp add: s_def)
  then have "0 \<le> s ! nat \<lfloor>k\<rfloor>" using assms(1) by (simp add: list_all_iff)
  also have "\<dots> \<le> interp s k"
    by (rule interp_bounds(1) [OF _ k0 kn]) (simp add: s_def)
  finally show ?thesis
    using False by (simp add: v percentile_spec_interp s_def k_def n_def)
qed

lemma pct_hours_nonneg:
  assumes "list_all (\<lambda>x. 0 \<le> x) secs" "0 \<le> p" "p \<le> 1" "pct_hours secs p = Inr v"
  shows "0 \<le> v"
proof (cases "secs = []")
  case True
  then show ?thesis using assms(4) by (simp add: pct_hours_def)
next
  case False
  then obtain w where w: "percentile secs p = Inr w" "v = py_round (w / 3600) 2"
    using assms(4) by (auto simp: pct_hours_def split: sum.splits)
  have "0 \<le> w / 3600" using percentile_nonneg [OF assms(1-3) w(1)] by simp
  from py_round_nonneg [OF this] show ?thesis by (simp add: w(2))
qed

lemma query_efficiency_Inr:
  assumes "query_efficiency ps table now = Inr res"
  shows "\<exists>st. st = foldl eff_step
                 \<lparr>done_secs = [], bucket_counts = replicate (length BUCKETS) 0, eff_samples = []\<rparr>
                 (eff_done_rows ps table) \<and>
           done_count res = int (length (done_secs st)) \<and>
           avg_hours res = mean_hours (done_secs st) \<and>
           pct_hours (done_secs st) (1 / 2) = Inr (median_hours res) \<and>
           pct_hours (done_secs st) (9 / 10) = Inr (p90_hours res) \<and>
           open_avg_age_hours res = mean_hours (eff_open_secs ps table now) \<and>
           eff_top_samples res = eff_samples st"
  using assms by (auto simp: query_efficiency_def Let_def split: sum.splits)

text \<open>
  Claim C7, as the code has it by design. The achievement and the overdue report clamp a
  negative duration to zero hours (\<open>hours_since\<close>, for the turnaround of a closed ticket
  and for the age of an open one), and no sample they return has a negative
  \<^verbatim>\<open>target_h\<close>, \<^verbatim>\<open>tat_h\<close> or \<^verbatim>\<open>overdue_h\<close>. The efficiency report does not clamp: it
  leaves a ticket with a negative duration out, so \<^verbatim>\<open>done_count\<close> counts the tickets
  with a duration that is not negative only, and its averages, percentiles and sample
  hours are never negative.
\<close>

theorem durations_never_negative:
  "(query_sla_achievement ps table now = Inr res \<longrightarrow>
      list_all nonneg_sample (breached_samples res)) \<and>
   (query_overdue ps table now = Inr ores \<longrightarrow>
      list_all nonneg_sample (top_overdue_samples ores)) \<and>
   hours_since t (Some c) = (if total_seconds t c < 0 then 0 else total_seconds t c / 3600) \<and>
   (query_efficiency ps table now = Inr eres \<longrightarrow>
      done_count eres = int (length (filter eff_counted (eff_done_rows ps table))) \<and>
      0 \<le> avg_hours eres \<and> 0 \<le> median_hours eres \<and> 0 \<le> p90_hours eres \<and>
      0 \<le> open_avg_age_hours eres \<and>
      list_all (\<lambda>s. 0 \<le> resolved_hours s) (eff_top_samples eres))"
proof (intro conjI impI)
  assume "query_sla_achievement ps table now = Inr res"
  from query_sla_achievement_Inr [OF this] obtain bs st where
    st: "fold_err (ach_step (compose_rules_from_params ps) (interval_of ps) (bucket_index bs) now)
             (ach_init (length bs)) (sla_sample ps table) = Inr st"
    and res: "res = ach_result_of (int (length (sla_sample ps table))) st"
    by blast
  have "breached_samples res = top_samples (samples st)"
    by (simp add: res ach_result_of_def Let_def)
  then show "list_all nonneg_sample (breached_samples res)"
    using list_all_top_samples [OF ach_fold_samples [OF st]] by simp
next
  assume "query_overdue ps table now = Inr ores"
  from query_overdue_Inr [OF this] obtain bs st where
    st: "fold_err (ov_step (compose_rules_from_params ps) (interval_of ps) (bucket_index bs) now)
             (ov_init (length bs)) (sla_sample ps table) = Inr st"
    and res: "ores = ov_result_of st"
    by blast
  have "top_overdue_samples ores = top_samples (ov_samples st)"
    by (simp add: res ov_result_of_def Let_def)
  then show "list_all nonneg_sample (top_overdue_samples ores)"
    using list_all_top_samples [OF ov_fold_samples [OF st]] by simp
next
  show "hours_since t (Some c) = (if total_seconds t c < 0 then 0 else total_seconds t c / 3600)"
    by (rule hours_since_clamp)
next
  assume e: "query_efficiency ps table now = Inr eres"
  define st0 :: eff_state where
    "st0 = \<lparr>done_secs = [], bucket_counts = replicate (length BUCKETS) 0, eff_samples = []\<rparr>"
  define st where "st = foldl eff_step st0 (eff_done_rows ps table)"
  from query_efficiency_Inr [OF e] have r:
    "done_count eres = int (length (done_secs st))"
    "avg_hours eres = mean_hours (done_secs st)"
    "pct_hours (done_secs st) (1 / 2) = Inr (median_hours eres)"
    "pct_hours (done_secs st) (9 / 10) = Inr (p90_hours eres)"
    "open_avg_age_hours eres = mean_hours (eff_open_secs ps table now)"
    "eff_top_samples eres = eff_samples st"
    by (simp_all add: st_def st0_def)
  have ok0: "eff_ok st0" by (simp add: eff_ok_def st0_def)
  from eff_fold [OF ok0, of "eff_done_rows ps table"]
  have ok: "eff_ok st"
    and len: "length (done_secs st) = length (filter eff_counted (eff_done_rows ps table))"
    by (simp_all add: st_def st0_def)
  have nn: "list_all (\<lambda>x. 0 \<le> x) (done_secs st)" using ok by (simp add: eff_ok_def)
  show "done_count eres = int (length (filter eff_counted (eff_done_rows ps table)))"
    using r(1) len by simp
  show "0 \<le> avg_hours eres" unfolding r(2) by (rule mean_hours_nonneg [OF nn])
  show "0 \<le> median_hours eres" by (rule pct_hours_nonneg [OF nn _ _ r(3)]) simp_all
  show "0 \<le> p90_hours eres" by (rule pct_hours_nonneg [OF nn _ _ r(4)]) simp_all
  show "0 \<le> open_avg_age_hours eres"
    unfolding r(5) by (rule mean_hours_nonneg) (simp add: eff_open_secs_def list_all_iff)
  show "list_all (\<lambda>s. 0 \<le> resolved_hours s) (eff_top_samples eres)"
    using ok by (simp add: r(6) eff_ok_def)
qed

section \<open>The project-category report\<close>

text \<open>
  \<^verbatim>\<open>_query_project_category\<close> of \<^verbatim>\<open>reports_ticket.py\<close>. The sample is the tickets
  created within \<^verbatim>\<open>[date_from, date_to]\<close>, outer-joined with their type (\<^verbatim>\<open>type_sid\<close> is
  the primary key of the types) and filtered by project and type group when those are
  given. \<^verbatim>\<open>_done_sql_expr()\<close> is \<^verbatim>\<open>lower(ticket_status) LIKE '%k%'\<close> for some keyword,
  which is containment as the keywords hold no wildcard. Groups come in the order in
  which their type first occurs; SQL leaves that order open.
\<close>

record pd_type =
  type_sid :: int
  type_group :: string
  type_name :: string

record category_params =
  c_project_sid :: "int option"
  c_date_from :: datetime
  c_date_to :: datetime
  c_type_group :: "string option"

definition joined_type :: "pd_type list \<Rightarrow> ticket \<Rightarrow> pd_type option" where
  "joined_type types r =
     (case ticket_type r of None \<Rightarrow> None | Some sid \<Rightarrow> find (\<lambda>t. type_sid t = sid) types)"

definition group_match :: "string option \<Rightarrow> pd_type option \<Rightarrow> bool" where
  "group_match g ty =
     (case g of
        None \<Rightarrow> True
      | Some x \<Rightarrow> if x = [] then True
                  else (case ty of None \<Rightarrow> False | Some t \<Rightarrow> type_group t = x))"

definition category_sample :: "category_params \<Rightarrow> pd_type list \<Rightarrow> ticket list \<Rightarrow> ticket list" where
  "category_sample ps types table =
     filter (\<lambda>r. status r = 1 \<and> sql_between (create_dt r) (c_date_from ps) (c_date_to ps) \<and>
                   project_match (c_project_sid ps) r \<and>
                   group_match (c_type_group ps) (joined_type types r)) table"

definition sql_le :: "datetime option \<Rightarrow> datetime \<Rightarrow> bool" where
  "sql_le col b = (case col of None \<Rightarrow> False | Some c \<Rightarrow> dt_le c b)"

definition done_sql_expr :: "string option \<Rightarrow> bool" where
  "done_sql_expr col =
     (case col of
        None \<Rightarrow> False
      | Some s \<Rightarrow> list_ex (\<lambda>k. str_contains (str_lower s) k) DONE_KEYWORDS_LOWER)"

definition closed_in_period :: "category_params \<Rightarrow> ticket \<Rightarrow> bool" where
  "closed_in_period ps r = (sql_le (update_dt r) (c_date_to ps) \<and> done_sql_expr (ticket_status r))"

definition group_by_type :: "ticket list \<Rightarrow> (int option \<times> int) list" where
  "group_by_type rows =
     map (\<lambda>k. (k, int (length (filter (\<lambda>r. ticket_type r = k) rows))))
       (remdups (map ticket_type rows))"

definition UNCATEGORIZED :: string where
  "UNCATEGORIZED = [CHR 0xE6, CHR 0x9C, CHR 0xAA, CHR 0xE5, CHR 0x88, CHR 0x86, CHR 0xE9, CHR 0xA1, CHR 0x9E]"

record category_row =
  row_type_sid :: "int option"
  row_type_name :: string
  row_count :: int
  row_percent :: rat
  row_open :: int
  row_closed :: int

record category_result =
  cat_total :: int
  cat_categories :: int
  cat_top_label :: string
  cat_top_count :: int
  cat_closed_pct :: rat
  cat_rows :: "category_row list"

definition map_get0 :: "('k \<rightharpoonup> int) \<Rightarrow> 'k \<Rightarrow> int" where
  "map_get0 m k = (case m k of None \<Rightarrow> 0 | Some v \<Rightarrow> v)"

definition type_name_of :: "pd_type list \<Rightarrow> int option \<Rightarrow> string" where
  "type_name_of types k =
     (case k of
        None \<Rightarrow> UNCATEGORIZED
      | Some sid \<Rightarrow> (case find (\<lambda>t. type_sid t = sid) types of
                      None \<Rightarrow> UNCATEGORIZED
                    | Some t \<Rightarrow> type_name t))"

definition pick_top :: "string \<times> int \<Rightarrow> category_row \<Rightarrow> string \<times> int" where
  "pick_top best row =
     (if snd best < row_count row then (row_type_name row, row_count row) else best)"

definition query_project_category ::
  "category_params \<Rightarrow> pd_type list \<Rightarrow> ticket list \<Rightarrow> category_result" where
  "query_project_category ps types table =
     (let base_rows = group_by_type (category_sample ps types table)
      in if base_rows = [] then
           \<lparr>cat_total = 0, cat_categories = 0, cat_top_label = [], cat_top_count = 0,
            cat_closed_pct = 0, cat_rows = []\<rparr>
         else
           (let closed_rows = group_by_type (filter (closed_in_period ps) (category_sample ps types table));
                n_total = sum_list (map snd base_rows);
                counts_map = map_of base_rows;
                closed_map = map_of closed_rows;
                all_keys = sort_key (\<lambda>k. - map_get0 counts_map k) (map fst base_rows);
                rows = map (\<lambda>sid.
                         (let cnt = map_get0 counts_map sid; cls = map_get0 closed_map sid
                          in \<lparr>row_type_sid = sid, row_type_name = type_name_of types sid,
                               row_count = cnt,
                               row_percent = (if n_total \<noteq> 0
                                  then py_round (of_int cnt / of_int n_total * 100) 2 else 0),
                               row_open = max (cnt - cls) 0, row_closed = cls\<rparr>)) all_keys;
                best = foldl pick_top ([], 0) rows
            in \<lparr>cat_total = n_total, cat_categories = int (length all_keys),
                 cat_top_label = fst best, cat_top_count = snd best,
                 cat_closed_pct = percent (sum_list (map row_closed rows)) n_total,
                 cat_rows = rows\<rparr>))"

lemma is_done_None: "\<not> is_done None"
  by code_simp

lemma done_sql_expr_is_done: "done_sql_expr col = is_done col"
proof (cases col)
  case None
  then show ?thesis using is_done_None by (simp add: done_sql_expr_def)
next
  case (Some s)
  then show ?thesis by (simp add: done_sql_expr_def is_done_def)
qed

lemma map_of_group_by_type:
  "map_get0 (map_of (group_by_type rows)) k = int (length (filter (\<lambda>r. ticket_type r = k) rows))"
proof (cases "k \<in> set (map ticket_type rows)")
  case True
  then have "map_of (group_by_type rows) k = Some (int (length (filter (\<lambda>r. ticket_type r = k) rows)))"
    unfolding group_by_type_def by (simp add: map_of_map_restrict restrict_map_def)
  then show ?thesis by (simp add: map_get0_def)
next
  case False
  then have "map_of (group_by_type rows) k = None"
    unfolding group_by_type_def by (simp add: map_of_map_restrict restrict_map_def)
  moreover have "filter (\<lambda>r. ticket_type r = k) rows = []"
    using False by (auto simp: filter_empty_conv)
  ultimately show ?thesis by (simp add: map_get0_def)
qed

text \<open>
  The counts of one row of the category table, and the categories the table lists.
\<close>

lemma category_row_counts:
  assumes "row \<in> set (cat_rows (query_project_category ps types table))"
  shows "row_count row =
           int (length (filter (\<lambda>r. ticket_type r = row_type_sid row) (category_sample ps types table))) \<and>
         row_closed row =
           int (length (filter (\<lambda>r. ticket_type r = row_type_sid row \<and> is_done (ticket_status r) \<and>
                                     sql_le (update_dt r) (c_date_to ps))
                  (category_sample ps types table))) \<and>
         row_open row = row_count row - row_closed row \<and>
         row_open row =
           int (length (filter (\<lambda>r. ticket_type r = row_type_sid row \<and>
                                     \<not> (is_done (ticket_status r) \<and> sql_le (update_dt r) (c_date_to ps)))
                  (category_sample ps types table)))"
proof -
  define smp where "smp = category_sample ps types table"
  define k where "k = row_type_sid row"
  have ne: "group_by_type smp \<noteq> []"
    using assms by (auto simp: query_project_category_def Let_def smp_def split: if_splits)
  have row: "row_count row = map_get0 (map_of (group_by_type smp)) k"
    "row_closed row = map_get0 (map_of (group_by_type (filter (closed_in_period ps) smp))) k"
    "row_open row = max (row_count row - row_closed row) 0"
    using assms ne by (auto simp: query_project_category_def Let_def smp_def k_def)
  have cnt: "row_count row = int (length (filter (\<lambda>r. ticket_type r = k) smp))"
    unfolding row(1) by (rule map_of_group_by_type)
  have "row_closed row = int (length (filter (\<lambda>r. ticket_type r = k) (filter (closed_in_period ps) smp)))"
    unfolding row(2) by (rule map_of_group_by_type)
  also have "filter (\<lambda>r. ticket_type r = k) (filter (closed_in_period ps) smp) =
      filter (\<lambda>r. ticket_type r = k \<and> is_done (ticket_status r) \<and> sql_le (update_dt r) (c_date_to ps)) smp"
    by (simp add: closed_in_period_def done_sql_expr_is_done conj_commute conj_left_commute)
  finally have cls: "row_closed row =
      int (length (filter (\<lambda>r. ticket_type r = k \<and> is_done (ticket_status r) \<and>
                                sql_le (update_dt r) (c_date_to ps)) smp))" .
  have split: "length (filter (\<lambda>r. ticket_type r = k \<and> (is_done (ticket_status r) \<and> sql_le (update_dt r) (c_date_to ps))) smp)
      + length (filter (\<lambda>r. ticket_type r = k \<and> \<not> (is_done (ticket_status r) \<and> sql_le (update_dt r) (c_date_to ps))) smp)
      = length (filter (\<lambda>r. ticket_type r = k) smp)"
    by (rule filter_split_length)
  have opn: "row_open row = row_count row - row_closed row"
    using row(3) cnt cls split by simp
  show ?thesis using cnt cls opn split unfolding smp_def k_def by simp
qed

lemma sum_list_key_indicator:
  assumes "distinct ks" "a \<in> set ks"
  shows "(\<Sum>k\<leftarrow>ks. if a = k \<and> b then 1 else (0::int)) = (if b then 1 else 0)"
  using assms
proof (induction ks)
  case Nil
  then show ?case by simp
next
  case (Cons k ks)
  show ?case
  proof (cases "a = k")
    case True
    then have "a \<notin> set ks" using Cons.prems(1) by simp
    then have "(\<Sum>k\<leftarrow>ks. if a = k \<and> b then 1 else (0::int)) = 0"
      by (induction ks) auto
    then show ?thesis using True by simp
  next
    case False
    then show ?thesis using Cons by simp
  qed
qed

lemma sum_count_by_key:
  assumes "distinct ks" "f ` set xs \<subseteq> set ks"
  shows "(\<Sum>k\<leftarrow>ks. int (length (filter (\<lambda>r. f r = k \<and> P r) xs))) = int (length (filter P xs))"
  using assms(2)
proof (induction xs)
  case Nil
  then show ?case by simp
next
  case (Cons x xs)
  have in_ks: "f x \<in> set ks" and sub: "f ` set xs \<subseteq> set ks" using Cons.prems by simp_all
  have "(\<Sum>k\<leftarrow>ks. int (length (filter (\<lambda>r. f r = k \<and> P r) (x # xs)))) =
        (\<Sum>k\<leftarrow>ks. (if f x = k \<and> P x then 1 else 0) + int (length (filter (\<lambda>r. f r = k \<and> P r) xs)))"
    by (intro arg_cong [where f = sum_list] map_cong) simp_all
  also have "\<dots> = (\<Sum>k\<leftarrow>ks. if f x = k \<and> P x then 1 else 0) +
        (\<Sum>k\<leftarrow>ks. int (length (filter (\<lambda>r. f r = k \<and> P r) xs)))"
    by (rule sum_list_addf)
  also have "\<dots> = (if P x then 1 else 0) + int (length (filter P xs))"
    using sum_list_key_indicator [OF assms(1) in_ks] Cons.IH [OF sub] by simp
  finally show ?case by simp
qed

lemma category_row_keys:
  "map row_type_sid (cat_rows (query_project_category ps types table)) =
     sort_key (\<lambda>k. - map_get0 (map_of (group_by_type (category_sample ps types table))) k)
       (remdups (map ticket_type (category_sample ps types table)))"
proof -
  have k: "map fst (group_by_type rows) = remdups (map ticket_type rows)" for rows
    by (simp add: group_by_type_def o_def)
  show ?thesis
  proof (cases "group_by_type (category_sample ps types table) = []")
    case True
    then have "remdups (map ticket_type (category_sample ps types table)) = []"
      using k [of "category_sample ps types table"] by simp
    then show ?thesis using True by (simp add: query_project_category_def)
  next
    case False
    then show ?thesis by (simp add: query_project_category_def Let_def o_def k)
  qed
qed

text \<open>
  Claim C9. The category table has exactly one row for each category (ticket type) that
  occurs in the sample, the tickets created within \<^verbatim>\<open>[date_from, date_to]\<close>. For every
  row: its count is the number of sample tickets of the category; its closed count is the
  number of those whose status matches a completion keyword and whose \<^verbatim>\<open>update_dt\<close> is
  at most \<^verbatim>\<open>date_to\<close>; its open count is the count minus the closed count, which is the
  number of sample tickets of the category that are not closed in this sense, a ticket
  closed after \<^verbatim>\<open>date_to\<close> among them. So over all rows every sample ticket is counted
  once, as closed if and only if its status matches a completion keyword and its
  \<^verbatim>\<open>update_dt\<close> is at most \<^verbatim>\<open>date_to\<close>, and as open otherwise.
\<close>

theorem category_closed_within_period:
  "distinct (map row_type_sid (cat_rows (query_project_category ps types table))) \<and>
   set (map row_type_sid (cat_rows (query_project_category ps types table))) =
     ticket_type ` set (category_sample ps types table) \<and>
   (\<forall>row \<in> set (cat_rows (query_project_category ps types table)).
      row_count row =
        int (length (filter (\<lambda>r. ticket_type r = row_type_sid row) (category_sample ps types table))) \<and>
      row_closed row =
        int (length (filter (\<lambda>r. ticket_type r = row_type_sid row \<and> is_done (ticket_status r) \<and>
                                  sql_le (update_dt r) (c_date_to ps))
               (category_sample ps types table))) \<and>
      row_open row = row_count row - row_closed row \<and>
      row_open row =
        int (length (filter (\<lambda>r. ticket_type r = row_type_sid row \<and>
                                  \<not> (is_done (ticket_status r) \<and> sql_le (update_dt r) (c_date_to ps)))
               (category_sample ps types table)))) \<and>
   sum_list (map row_count (cat_rows (query_project_category ps types table))) =
     int (length (category_sample ps types table)) \<and>
   sum_list (map row_closed (cat_rows (query_project_category ps types table))) =
     int (length (filter (\<lambda>r. is_done (ticket_status r) \<and> sql_le (update_dt r) (c_date_to ps))
            (category_sample ps types table))) \<and>
   sum_list (map row_open (cat_rows (query_project_category ps types table))) =
     int (length (filter (\<lambda>r. \<not> (is_done (ticket_status r) \<and> sql_le (update_dt r) (c_date_to ps)))
            (category_sample ps types table)))"
proof -
  define smp where "smp = category_sample ps types table"
  define rows where "rows = cat_rows (query_project_category ps types table)"
  define keys where "keys = map row_type_sid rows"
  define closed where "closed = (\<lambda>r :: ticket. is_done (ticket_status r) \<and> sql_le (update_dt r) (c_date_to ps))"
  have keys: "keys = sort_key (\<lambda>k. - map_get0 (map_of (group_by_type smp)) k)
      (remdups (map ticket_type smp))"
    unfolding keys_def rows_def smp_def by (rule category_row_keys)
  have d: "distinct keys" unfolding keys by simp
  have s: "set keys = ticket_type ` set smp" unfolding keys by simp
  have sub: "ticket_type ` set smp \<subseteq> set keys" using s by simp
  have row: "row_count row = int (length (filter (\<lambda>r. ticket_type r = row_type_sid row \<and> True) smp)) \<and>
      row_closed row = int (length (filter (\<lambda>r. ticket_type r = row_type_sid row \<and> closed r) smp)) \<and>
      row_open row = row_count row - row_closed row \<and>
      row_open row = int (length (filter (\<lambda>r. ticket_type r = row_type_sid row \<and> \<not> closed r) smp))"
    if "row \<in> set rows" for row
    using category_row_counts [of row ps types table] that unfolding rows_def smp_def closed_def
    by simp
  have total: "sum_list (map g rows) = int (length (filter P smp))"
    if "\<And>row. row \<in> set rows \<Longrightarrow>
          g row = int (length (filter (\<lambda>r. ticket_type r = row_type_sid row \<and> P r) smp))"
    for g :: "category_row \<Rightarrow> int" and P :: "ticket \<Rightarrow> bool"
  proof -
    have "map g rows = map ((\<lambda>k. int (length (filter (\<lambda>r. ticket_type r = k \<and> P r) smp))) \<circ> row_type_sid) rows"
      using that by (intro map_cong) simp_all
    also have "\<dots> = map (\<lambda>k. int (length (filter (\<lambda>r. ticket_type r = k \<and> P r) smp))) keys"
      by (simp add: keys_def)
    finally show ?thesis using sum_count_by_key [OF d sub, of P] by simp
  qed
  have "sum_list (map row_count rows) = int (length (filter (\<lambda>r. True) smp))"
    by (rule total) (use row in blast)
  then have t1: "sum_list (map row_count rows) = int (length smp)" by simp
  have t2: "sum_list (map row_closed rows) = int (length (filter closed smp))"
    by (rule total) (use row in blast)
  have t3: "sum_list (map row_open rows) = int (length (filter (\<lambda>r. \<not> closed r) smp))"
    by (rule total) (use row in blast)
  have r: "\<forall>row \<in> set rows.
      row_count row = int (length (filter (\<lambda>r. ticket_type r = row_type_sid row) smp)) \<and>
      row_closed row = int (length (filter (\<lambda>r. ticket_type r = row_type_sid row \<and> closed r) smp)) \<and>
      row_open row = row_count row - row_closed row \<and>
      row_open row = int (length (filter (\<lambda>r. ticket_type r = row_type_sid row \<and> \<not> closed r) smp))"
  proof
    fix row assume "row \<in> set rows"
    from row [OF this] show "row_count row = int (length (filter (\<lambda>r. ticket_type r = row_type_sid row) smp)) \<and>
      row_closed row = int (length (filter (\<lambda>r. ticket_type r = row_type_sid row \<and> closed r) smp)) \<and>
      row_open row = row_count row - row_closed row \<and>
      row_open row = int (length (filter (\<lambda>r. ticket_type r = row_type_sid row \<and> \<not> closed r) smp))"
      by simp
  qed
  from d s r t1 t2 t3 show ?thesis
    unfolding keys_def rows_def smp_def closed_def by blast
qed

section \<open>A worked scenario\<close>

text \<open>
  Five tickets of project 7, created on 2024-01-01 and 2024-01-02 and evaluated on
  2024-01-11: one closed within its target, one closed two hours late, two open ones
  without a priority that were created at the same moment, and one whose \<^verbatim>\<open>update_dt\<close>
  lies two hours before its \<^verbatim>\<open>create_dt\<close>.
\<close>

definition scenario_params :: query_params where
  "scenario_params = qp (dt 2024 1 1 0 0 0 0) (dt 2024 1 2 23 59 59 999999) ''day''"

definition scenario_now :: datetime where
  "scenario_now = dt 2024 1 11 0 0 0 0"

definition late_ticket :: ticket where
  "late_ticket = tk 5 ''closed'' ''p1'' (dt 2024 1 2 0 0 0 0) (Some (dt 2024 1 1 22 0 0 0))"

definition scenario_table :: "ticket list" where
  "scenario_table =
     [tk 1 ''closed'' ''p1'' (dt 2024 1 1 0 0 0 0) (Some (dt 2024 1 1 2 0 0 0)),
      tk 2 ''closed'' ''p1'' (dt 2024 1 1 0 0 0 0) (Some (dt 2024 1 1 6 0 0 0)),
      tk 3 ''open'' [] (dt 2024 1 1 0 0 0 0) None,
      tk 4 ''open'' [] (dt 2024 1 1 0 0 0 0) None,
      late_ticket]"

lemma scenario_ach:
  "case query_sla_achievement scenario_params scenario_table scenario_now of
     Inl e \<Rightarrow> False
   | Inr r \<Rightarrow>
       kpi_closed (kpi r) = 3 \<and> kpi_achieved_closed (kpi r) = 2 \<and>
       kpi_breached_closed (kpi r) = 1 \<and>
       map overdue_h (breached_samples r) = [216, 216, 2] \<and>
       map tat_h (breached_samples r) = [240, 240, 6]"
  by code_simp

lemma scenario_ov:
  "case query_overdue scenario_params scenario_table scenario_now of
     Inl e \<Rightarrow> False
   | Inr r \<Rightarrow> map overdue_h (top_overdue_samples r) = [216, 216, 2]"
  by code_simp

lemma scenario_eff:
  "case query_efficiency scenario_params scenario_table scenario_now of
     Inl e \<Rightarrow> False
   | Inr r \<Rightarrow> done_count r = 2 \<and> map resolved_hours (eff_top_samples r) = [6, 2]"
  by code_simp

lemma late_eff:
  "case query_efficiency scenario_params [late_ticket] scenario_now of
     Inl e \<Rightarrow> False
   | Inr r \<Rightarrow> done_count r = 0 \<and> eff_top_samples r = []"
  by code_simp

lemma late_progress:
  "map lead_hours (progress_closed_items 7 (dt 2024 1 1 0 0 0 0) (dt 2024 1 2 23 59 59 999999) [late_ticket])
     = [- 2]"
  by code_simp

lemma late_facts:
  "total_seconds (dt 2024 1 1 22 0 0 0) (dt 2024 1 2 0 0 0 0) = - 7200"
  "is_done (ticket_status late_ticket)"
  by code_simp+

lemma strictly_descending_distinct:
  "strictly_descending_by_overdue ss \<Longrightarrow> distinct (map overdue_h ss)"
  unfolding strictly_descending_by_overdue_def
  by (induction ss) auto

theorem achieved_plus_breached_witness:
  "\<not> isl (query_sla_achievement scenario_params scenario_table scenario_now) \<and>
   kpi_closed (kpi (projr (query_sla_achievement scenario_params scenario_table scenario_now))) = 3 \<and>
   kpi_achieved_closed (kpi (projr (query_sla_achievement scenario_params scenario_table scenario_now))) = 2 \<and>
   kpi_breached_closed (kpi (projr (query_sla_achievement scenario_params scenario_table scenario_now))) = 1 \<and>
   int (length (filter is_closed (sla_sample scenario_params scenario_table))) = 3"
proof -
  from scenario_ach obtain r where
    r: "query_sla_achievement scenario_params scenario_table scenario_now = Inr r"
    and k: "kpi_closed (kpi r) = 3" "kpi_achieved_closed (kpi r) = 2" "kpi_breached_closed (kpi r) = 1"
    by (cases "query_sla_achievement scenario_params scenario_table scenario_now") auto
  from achieved_plus_breached [OF r] k show ?thesis by (simp add: r)
qed

theorem durations_witness:
  "\<not> isl (query_sla_achievement scenario_params scenario_table scenario_now) \<and>
   \<not> isl (query_overdue scenario_params scenario_table scenario_now) \<and>
   \<not> isl (query_efficiency scenario_params scenario_table scenario_now) \<and>
   map tat_h (breached_samples (projr (query_sla_achievement scenario_params scenario_table scenario_now)))
     = [240, 240, 6] \<and>
   list_all nonneg_sample
     (breached_samples (projr (query_sla_achievement scenario_params scenario_table scenario_now))) \<and>
   list_all nonneg_sample
     (top_overdue_samples (projr (query_overdue scenario_params scenario_table scenario_now))) \<and>
   done_count (projr (query_efficiency scenario_params scenario_table scenario_now)) = 2 \<and>
   int (length (filter eff_counted (eff_done_rows scenario_params scenario_table))) = 2 \<and>
   0 \<le> median_hours (projr (query_efficiency scenario_params scenario_table scenario_now))"
proof -
  from scenario_ach obtain r where
    r: "query_sla_achievement scenario_params scenario_table scenario_now = Inr r"
    and k: "map tat_h (breached_samples r) = [240, 240, 6]"
    by (cases "query_sla_achievement scenario_params scenario_table scenario_now") auto
  from scenario_ov obtain ro where
    ro: "query_overdue scenario_params scenario_table scenario_now = Inr ro"
    by (cases "query_overdue scenario_params scenario_table scenario_now") auto
  from scenario_eff obtain re where
    re: "query_efficiency scenario_params scenario_table scenario_now = Inr re"
    and d: "done_count re = 2"
    by (cases "query_efficiency scenario_params scenario_table scenario_now") auto
  from durations_never_negative [of scenario_params scenario_table scenario_now r ro _ _ re]
    r ro re k d
  show ?thesis by simp
qed

theorem samples_sorted_bounded_witness:
  "\<not> isl (query_sla_achievement scenario_params scenario_table scenario_now) \<and>
   \<not> isl (query_overdue scenario_params scenario_table scenario_now) \<and>
   map overdue_h (breached_samples (projr (query_sla_achievement scenario_params scenario_table scenario_now)))
     = [216, 216, 2] \<and>
   descending_by_overdue
     (breached_samples (projr (query_sla_achievement scenario_params scenario_table scenario_now))) \<and>
   descending_by_overdue
     (top_overdue_samples (projr (query_overdue scenario_params scenario_table scenario_now)))"
proof -
  from scenario_ach obtain r where
    r: "query_sla_achievement scenario_params scenario_table scenario_now = Inr r"
    and k: "map overdue_h (breached_samples r) = [216, 216, 2]"
    by (cases "query_sla_achievement scenario_params scenario_table scenario_now") auto
  from scenario_ov obtain ro where
    ro: "query_overdue scenario_params scenario_table scenario_now = Inr ro"
    by (cases "query_overdue scenario_params scenario_table scenario_now") auto
  from samples_sorted_bounded [of scenario_params scenario_table scenario_now r ro] r ro k
  show ?thesis by (simp add: descending_by_overdue_def)
qed

text \<open>
  Claim C8 as stated fails: the two open tickets have the same \<^verbatim>\<open>overdue_h\<close> of 216
  hours, so neither sample list is strictly descending.
\<close>

theorem samples_tie_counterexample:
  "\<not> isl (query_sla_achievement scenario_params scenario_table scenario_now) \<and>
   \<not> isl (query_overdue scenario_params scenario_table scenario_now) \<and>
   map overdue_h (breached_samples (projr (query_sla_achievement scenario_params scenario_table scenario_now)))
     = [216, 216, 2] \<and>
   map overdue_h (top_overdue_samples (projr (query_overdue scenario_params scenario_table scenario_now)))
     = [216, 216, 2] \<and>
   \<not> strictly_descending_by_overdue
     (breached_samples (projr (query_sla_achievement scenario_params scenario_table scenario_now))) \<and>
   \<not> strictly_descending_by_overdue
     (top_overdue_samples (projr (query_overdue scenario_params scenario_table scenario_now)))"
proof -
  from scenario_ach obtain r where
    r: "query_sla_achievement scenario_params scenario_table scenario_now = Inr r"
    and k: "map overdue_h (breached_samples r) = [216, 216, 2]"
    by (cases "query_sla_achievement scenario_params scenario_table scenario_now") auto
  from scenario_ov obtain ro where
    ro: "query_overdue scenario_params scenario_table scenario_now = Inr ro"
    and ko: "map overdue_h (top_overdue_samples ro) = [216, 216, 2]"
    by (cases "query_overdue scenario_params scenario_table scenario_now") auto
  have "\<not> strictly_descending_by_overdue (breached_samples r)"
    using strictly_descending_distinct [of "breached_samples r"] k by auto
  moreover have "\<not> strictly_descending_by_overdue (top_overdue_samples ro)"
    using strictly_descending_distinct [of "top_overdue_samples ro"] ko by auto
  ultimately show ?thesis using r ro k ko by simp
qed

text \<open>
  Claim C7 as stated fails. For the ticket updated two hours before its creation the
  efficiency report does not clamp the duration to zero: the ticket is left out
  (\<^verbatim>\<open>done_count\<close> is 0 and there is no sample). The project-progress report lists the
  same ticket with \<^verbatim>\<open>lead_hours = -2\<close>.
\<close>

theorem negative_duration_counterexample:
  "total_seconds (dt 2024 1 1 22 0 0 0) (dt 2024 1 2 0 0 0 0) = - 7200 \<and>
   is_done (ticket_status late_ticket) \<and>
   \<not> isl (query_efficiency scenario_params [late_ticket] scenario_now) \<and>
   done_count (projr (query_efficiency scenario_params [late_ticket] scenario_now)) = 0 \<and>
   eff_top_samples (projr (query_efficiency scenario_params [late_ticket] scenario_now)) = [] \<and>
   map lead_hours
     (progress_closed_items 7 (dt 2024 1 1 0 0 0 0) (dt 2024 1 2 23 59 59 999999) [late_ticket])
     = [- 2]"
proof -
  from late_eff obtain r where
    r: "query_efficiency scenario_params [late_ticket] scenario_now = Inr r"
    and k: "done_count r = 0" "eff_top_samples r = []"
    by (cases "query_efficiency scenario_params [late_ticket] scenario_now") auto
  show ?thesis using r k late_progress late_facts by simp
qed

text \<open>
  Three tickets created in January 2024. Two are of type 3: one closed on 2024-01-20,
  one closed on 2024-02-02, after the end of the period. One is of type 4 and closed
  on 2024-01-06.
\<close>

definition category_example_params :: category_params where
  "category_example_params =
     \<lparr>c_project_sid = Some 7, c_date_from = dt 2024 1 1 0 0 0 0,
      c_date_to = dt 2024 1 31 23 59 59 999999, c_type_group = None\<rparr>"

definition category_example_table :: "ticket list" where
  "category_example_table =
     [(tk 1 ''closed'' ''p1'' (dt 2024 1 10 9 0 0 0) (Some (dt 2024 1 20 9 0 0 0)))\<lparr>ticket_type := Some 3\<rparr>,
      (tk 2 ''closed'' ''p1'' (dt 2024 1 30 9 0 0 0) (Some (dt 2024 2 2 9 0 0 0)))\<lparr>ticket_type := Some 3\<rparr>,
      (tk 3 ''Resolved'' ''p2'' (dt 2024 1 5 9 0 0 0) (Some (dt 2024 1 6 9 0 0 0)))\<lparr>ticket_type := Some 4\<rparr>]"

definition category_example_types :: "pd_type list" where
  "category_example_types =
     [\<lparr>type_sid = 3, type_group = ''hw'', type_name = ''printer''\<rparr>,
      \<lparr>type_sid = 4, type_group = ''hw'', type_name = ''network''\<rparr>]"

lemma category_example:
  "cat_rows (query_project_category category_example_params category_example_types category_example_table)
     = [\<lparr>row_type_sid = Some 3, row_type_name = ''printer'', row_count = 2, row_percent = 6667 / 100,
          row_open = 1, row_closed = 1\<rparr>,
        \<lparr>row_type_sid = Some 4, row_type_name = ''network'', row_count = 1, row_percent = 3333 / 100,
          row_open = 0, row_closed = 1\<rparr>]"
  by code_simp

theorem category_closed_within_period_witness:
  "cat_rows (query_project_category category_example_params category_example_types category_example_table)
     = [\<lparr>row_type_sid = Some 3, row_type_name = ''printer'', row_count = 2, row_percent = 6667 / 100,
          row_open = 1, row_closed = 1\<rparr>,
        \<lparr>row_type_sid = Some 4, row_type_name = ''network'', row_count = 1, row_percent = 3333 / 100,
          row_open = 0, row_closed = 1\<rparr>] \<and>
   ticket_type ` set (category_sample category_example_params category_example_types category_example_table)
     = {Some 3, Some 4} \<and>
   int (length (category_sample category_example_params category_example_types category_example_table)) = 3 \<and>
   int (length (filter (\<lambda>r. ticket_type r = Some 3 \<and> is_done (ticket_status r) \<and>
                            sql_le (update_dt r) (c_date_to category_example_params))
     (category_sample category_example_params category_example_types category_example_table))) = 1 \<and>
   int (length (filter (\<lambda>r. ticket_type r = Some 3 \<and>
                            \<not> (is_done (ticket_status r) \<and>
                               sql_le (update_dt r) (c_date_to category_example_params)))
     (category_sample category_example_params category_example_types category_example_table))) = 1 \<and>
   int (length (filter (\<lambda>r. is_done (ticket_status r) \<and>
                            sql_le (update_dt r) (c_date_to category_example_params))
     (category_sample category_example_params category_example_types category_example_table))) = 2 \<and>
   int (length (filter (\<lambda>r. \<not> (is_done (ticket_status r) \<and>
                               sql_le (update_dt r) (c_date_to category_example_params)))
     (category_sample category_example_params category_example_types category_example_table))) = 1"
  using category_closed_within_period
    [of category_example_params category_example_types category_example_table]
  by (simp add: category_example insert_commute)

end
